theory Spec2Isabelle
  imports Complex_Main "HOL-Library.Char_ord" "HOL-Library.List_Lexorder"
    "HOL-Library.Product_Lexorder"
begin

section \<open>Markings (utils/marking.py)\<close>

text \<open>
  Place and transition identifiers are Python strings. The order on strings used by
  \<^verbatim>\<open>sorted\<close> is the lexicographic order on character codes.
\<close>

type_synonym place = string
type_synonym transition = string

datatype py_error =
  KeyError | ValueError | RuntimeError | AttributeError | StopIteration | IndexError |
  OverflowError

text \<open>
  A \<^verbatim>\<open>Marking\<close> object has one field, the dict \<^verbatim>\<open>self.marking\<close> from places to
  \<^verbatim>\<open>bool\<close>. The model identifies the object with that dict.
\<close>

type_synonym marking = "place \<rightharpoonup> bool"

text \<open>\<^verbatim>\<open>Marking(marking_dict)\<close>: every value is normalised with \<^verbatim>\<open>bool(token)\<close>.\<close>

definition Marking :: "(place \<rightharpoonup> int) \<Rightarrow> marking" where
  "Marking marking_dict = (\<lambda>place. map_option (\<lambda>token. token \<noteq> 0) (marking_dict place))"

text \<open>\<^verbatim>\<open>self.marking.get(place, False)\<close>\<close>

definition has_token :: "marking \<Rightarrow> place \<Rightarrow> bool" where
  "has_token m place = (case m place of None \<Rightarrow> False | Some b \<Rightarrow> b)"

definition set_token :: "marking \<Rightarrow> place \<Rightarrow> bool \<Rightarrow> marking" where
  "set_token m place b = m(place \<mapsto> b)"

definition to_vector :: "marking \<Rightarrow> place list \<Rightarrow> int list" where
  "to_vector m places = map (\<lambda>place. if has_token m place then 1 else 0) places"

text \<open>
  \<^verbatim>\<open>from_vector\<close>: the dict comprehension over \<^verbatim>\<open>zip(places, vector)\<close> stores the pairs
  from left to right, so a later pair with the same place overwrites an earlier one.
  The dict of \<^verbatim>\<open>bool\<close> values is then passed to the constructor (\<^verbatim>\<open>True\<close> is the
  integer 1, \<^verbatim>\<open>False\<close> is 0).
\<close>

definition from_vector :: "int list \<Rightarrow> place list \<Rightarrow> py_error + marking" where
  "from_vector vector places =
     (if length vector \<noteq> length places then Inl ValueError
      else Inr (Marking (fold (\<lambda>(place, token) d. d(place \<mapsto> (if token \<noteq> 0 then 1 else 0)))
                              (zip places vector) Map.empty)))"

text \<open>\<^verbatim>\<open>__eq__\<close> between two Marking objects: equality of the two dicts.\<close>

definition marking_eq :: "marking \<Rightarrow> marking \<Rightarrow> bool" where
  "marking_eq m1 m2 = (m1 = m2)"

text \<open>\<^verbatim>\<open>to_dict\<close>\<close>

definition to_dict :: "marking \<Rightarrow> (place \<rightharpoonup> int)" where
  "to_dict m = (\<lambda>place. map_option (\<lambda>b. if b then 1 else 0) (m place))"

section \<open>Nets (utils/petri\_net.py)\<close>

text \<open>
  \<^verbatim>\<open>places\<close> and \<^verbatim>\<open>transitions\<close> are Python sets of strings. A Python set is finite and
  iterates in an arbitrary but fixed order: the model holds each as the list of its
  elements in iteration order, membership is membership in the list. \<^verbatim>\<open>arcs\<close> is the dict
  \<^verbatim>\<open>{transition_id: {'input': [...], 'output': [...]}}\<close>. \<^verbatim>\<open>initial_marking\<close> is read by
  the symbolic engine with \<^verbatim>\<open>getattr(net, "initial_marking", None)\<close>; \<open>None\<close> stands for
  a net object without that attribute.
\<close>

record arc_info =
  arc_input :: "place list"
  arc_output :: "place list"

record PetriNet =
  places :: "place list"
  transitions :: "transition list"
  arcs :: "transition \<rightharpoonup> arc_info"
  initial_marking :: "marking option"

definition is_enabled :: "PetriNet \<Rightarrow> transition \<Rightarrow> marking \<Rightarrow> py_error + bool" where
  "is_enabled net transition m =
     (if transition \<notin> set (transitions net) then Inl ValueError
      else case arcs net transition of
             None \<Rightarrow> Inl KeyError
           | Some a \<Rightarrow> Inr (list_all (has_token m) (arc_input a)))"

text \<open>The marking returned by \<^verbatim>\<open>fire_transition\<close>, as a value.\<close>

definition fire_transition :: "PetriNet \<Rightarrow> transition \<Rightarrow> marking \<Rightarrow> py_error + marking" where
  "fire_transition net transition m =
     (if transition \<notin> set (transitions net) then Inl ValueError
      else case is_enabled net transition m of
             Inl e \<Rightarrow> Inl e
           | Inr False \<Rightarrow> Inl ValueError
           | Inr True \<Rightarrow>
               (case arcs net transition of
                  None \<Rightarrow> Inl KeyError
                | Some a \<Rightarrow>
                    Inr (fold (\<lambda>place new_marking. set_token new_marking place True) (arc_output a)
                          (fold (\<lambda>place new_marking. set_token new_marking place False) (arc_input a)
                             m))))"

definition get_enabled_transitions :: "PetriNet \<Rightarrow> marking \<Rightarrow> py_error + transition list" where
  "get_enabled_transitions net m =
     (if \<exists>t \<in> set (transitions net). arcs net t = None then Inl KeyError
      else Inr (filter (\<lambda>t. is_enabled net t m = Inr True) (transitions net)))"

text \<open>
  \<^verbatim>\<open>validate_consistency\<close>, its first component: no error was collected. (The loop over
  \<^verbatim>\<open>arcs.items()\<close> visits every key of the dict.)
\<close>

definition validate_consistency :: "PetriNet \<Rightarrow> bool" where
  "validate_consistency net =
     ((\<forall>trans \<in> set (transitions net). arcs net trans \<noteq> None) \<and>
      (\<forall>trans \<in> dom (arcs net). trans \<in> set (transitions net)) \<and>
      (\<forall>a \<in> ran (arcs net). set (arc_input a) \<subseteq> set (places net) \<and>
                             set (arc_output a) \<subseteq> set (places net)))"

subsection \<open>Firing on a store of Marking objects\<close>

text \<open>
  \<^verbatim>\<open>fire_transition\<close> copies its argument and mutates the copy. To state that the
  argument is untouched and the result is a new object, Marking objects live in a store:
  a list of dicts, an object being an index into it. \<^verbatim>\<open>copy()\<close> allocates the next index;
  \<^verbatim>\<open>set_token\<close> updates the dict at an index in place.
\<close>

type_synonym store = "marking list"

definition copy_h :: "store \<Rightarrow> nat \<Rightarrow> store \<times> nat" where
  "copy_h h a = (h @ [h ! a], length h)"

definition set_token_h :: "store \<Rightarrow> nat \<Rightarrow> place \<Rightarrow> bool \<Rightarrow> store" where
  "set_token_h h a place b = h[a := set_token (h ! a) place b]"

definition fire_transition_h ::
  "PetriNet \<Rightarrow> transition \<Rightarrow> store \<Rightarrow> nat \<Rightarrow> store \<times> (py_error + nat)" where
  "fire_transition_h net transition h a =
     (if transition \<notin> set (transitions net) then (h, Inl ValueError)
      else case is_enabled net transition (h ! a) of
             Inl e \<Rightarrow> (h, Inl e)
           | Inr False \<Rightarrow> (h, Inl ValueError)
           | Inr True \<Rightarrow>
               (case arcs net transition of
                  None \<Rightarrow> (h, Inl KeyError)
                | Some ai \<Rightarrow>
                    (let (h1, new_marking) = copy_h h a;
                         h2 = fold (\<lambda>place h'. set_token_h h' new_marking place False) (arc_input ai) h1;
                         h3 = fold (\<lambda>place h'. set_token_h h' new_marking place True) (arc_output ai) h2
                     in (h3, Inr new_marking))))"

section \<open>The BDD manager (dd.autoref, external library)\<close>

text \<open>
  Modelled from the spec: the BDD manager of section 6 of the specification is the external
  library \<^verbatim>\<open>dd\<close>, whose code is not part of the repository. A node is modelled by the
  Boolean function it denotes: the set of its satisfying total assignments over the
  variables declared in the manager, an assignment being the set of variables it makes
  true. Reduced ordered BDDs are canonical, so \<^verbatim>\<open>==\<close> on nodes is equality of these sets.
  \<^verbatim>\<open>exist\<close> quantifies the listed names away; \<^verbatim>\<open>let\<close> substitutes nodes (or the constants)
  for names. \<^verbatim>\<open>pick_iter(u)\<close> called without \<^verbatim>\<open>care_vars\<close> enumerates the satisfying
  assignments as dicts over the support of \<open>u\<close> only (the variables \<open>u\<close> depends on): the
  callers read them with \<^verbatim>\<open>assign.get(p, False)\<close>.
\<close>

type_synonym var = string
type_synonym assignment = "var set"
type_synonym bdd = "assignment set"
type_synonym manager = "var list"

definition bdd_false :: bdd where
  "bdd_false = {}"

definition bdd_true :: "manager \<Rightarrow> bdd" where
  "bdd_true V = Pow (set V)"

definition bdd_var :: "manager \<Rightarrow> var \<Rightarrow> bdd" where
  "bdd_var V v = {A \<in> Pow (set V). v \<in> A}"

definition bdd_and :: "bdd \<Rightarrow> bdd \<Rightarrow> bdd" where
  "bdd_and u w = u \<inter> w"

definition bdd_or :: "bdd \<Rightarrow> bdd \<Rightarrow> bdd" where
  "bdd_or u w = u \<union> w"

definition bdd_not :: "manager \<Rightarrow> bdd \<Rightarrow> bdd" where
  "bdd_not V u = Pow (set V) - u"

definition bdd_exist :: "manager \<Rightarrow> var list \<Rightarrow> bdd \<Rightarrow> bdd" where
  "bdd_exist V qs u = {A \<in> Pow (set V). \<exists>B \<in> Pow (set qs). (A - set qs) \<union> B \<in> u}"

definition bdd_let :: "manager \<Rightarrow> (var \<rightharpoonup> bdd) \<Rightarrow> bdd \<Rightarrow> bdd" where
  "bdd_let V m u =
     {A \<in> Pow (set V). {v \<in> set V. (case m v of None \<Rightarrow> v \<in> A | Some g \<Rightarrow> A \<in> g)} \<in> u}"

definition bdd_support :: "manager \<Rightarrow> bdd \<Rightarrow> var set" where
  "bdd_support V u = {v \<in> set V. \<exists>A \<in> Pow (set V). (insert v A \<in> u) \<noteq> (A - {v} \<in> u)}"

definition pick_iter :: "manager \<Rightarrow> bdd \<Rightarrow> (var \<rightharpoonup> bool) set" where
  "pick_iter V u = (\<lambda>A v. if v \<in> bdd_support V u then Some (v \<in> A) else None) ` u"

section \<open>The symbolic engine (bdd\_reachability/symbolic\_reachability.py)\<close>

record BDDReachability =
  petri_net :: PetriNet
  bdd_manager :: "manager option"
  place_var :: "place \<rightharpoonup> bdd"
  next_var :: "place \<rightharpoonup> bdd"
  trans_in :: "transition \<rightharpoonup> place list"
  trans_out :: "transition \<rightharpoonup> place list"
  transition_relation :: "bdd option"
  reachable_bdd :: "bdd option"

definition BDDReachability_init :: "PetriNet \<Rightarrow> BDDReachability" where
  "BDDReachability_init net =
     \<lparr>petri_net = net, bdd_manager = None, place_var = Map.empty, next_var = Map.empty,
      trans_in = Map.empty, trans_out = Map.empty, transition_relation = None,
      reachable_bdd = None\<rparr>"

text \<open>\<^verbatim>\<open>sorted(places)\<close> of the Python set: every element once, in increasing order.\<close>

definition sorted_places :: "PetriNet \<Rightarrow> place list" where
  "sorted_places net = sorted_list_of_set (set (places net))"

text \<open>The name of the next-state variable: \<^verbatim>\<open>p + "'"\<close>.\<close>

definition primed :: "place \<Rightarrow> var" where
  "primed p = p @ [CHR 0x27]"

definition build_transition_maps :: "BDDReachability \<Rightarrow> BDDReachability" where
  "build_transition_maps e =
     (let net = petri_net e;
          ti0 = (\<lambda>t. if t \<in> set (transitions net) \<and> trans_in e t = None then Some []
                      else trans_in e t);
          to0 = (\<lambda>t. if t \<in> set (transitions net) \<and> trans_out e t = None then Some []
                      else trans_out e t)
      in e\<lparr>trans_in := (\<lambda>t. case arcs net t of
                              Some arc_info \<Rightarrow>
                                if t \<in> set (transitions net) then Some (arc_input arc_info)
                                else ti0 t
                            | None \<Rightarrow> ti0 t),
            trans_out := (\<lambda>t. case arcs net t of
                              Some arc_info \<Rightarrow>
                                if t \<in> set (transitions net) then Some (arc_output arc_info)
                                else to0 t
                            | None \<Rightarrow> to0 t)\<rparr>)"

fun enabled_loop :: "(place \<rightharpoonup> bdd) \<Rightarrow> place list \<Rightarrow> bdd \<Rightarrow> py_error + bdd" where
  "enabled_loop pv [] enabled = Inr enabled"
| "enabled_loop pv (p # pre) enabled =
     (case pv p of
        None \<Rightarrow> Inl KeyError
      | Some x \<Rightarrow> enabled_loop pv pre (bdd_and enabled x))"

fun next_cons_loop ::
  "manager \<Rightarrow> (place \<rightharpoonup> bdd) \<Rightarrow> (place \<rightharpoonup> bdd) \<Rightarrow> place list \<Rightarrow> place list \<Rightarrow>
   place list \<Rightarrow> bdd \<Rightarrow> py_error + bdd" where
  "next_cons_loop V pv nv pre post [] next_cons = Inr next_cons"
| "next_cons_loop V pv nv pre post (p # ps) next_cons =
     (case pv p of
        None \<Rightarrow> Inl KeyError
      | Some x \<Rightarrow>
          (case nv p of
             None \<Rightarrow> Inl KeyError
           | Some xp \<Rightarrow>
               next_cons_loop V pv nv pre post ps
                 (if p \<in> set post then bdd_and next_cons xp
                  else if p \<in> set pre then bdd_and next_cons (bdd_not V xp)
                  else bdd_and next_cons
                         (bdd_or (bdd_and (bdd_not V x) (bdd_not V xp)) (bdd_and x xp)))))"

fun transition_loop ::
  "BDDReachability \<Rightarrow> manager \<Rightarrow> place list \<Rightarrow> transition list \<Rightarrow> bdd \<Rightarrow> py_error + bdd" where
  "transition_loop e V ps [] T = Inr T"
| "transition_loop e V ps (t # ts) T =
     (let pre = (case trans_in e t of None \<Rightarrow> [] | Some l \<Rightarrow> l);
          post = (case trans_out e t of None \<Rightarrow> [] | Some l \<Rightarrow> l)
      in case enabled_loop (place_var e) pre (bdd_true V) of
           Inl err \<Rightarrow> Inl err
         | Inr enabled \<Rightarrow>
             (case next_cons_loop V (place_var e) (next_var e) pre post ps (bdd_true V) of
                Inl err \<Rightarrow> Inl err
              | Inr next_cons \<Rightarrow>
                  transition_loop e V ps ts (bdd_or T (bdd_and enabled next_cons))))"

definition build_transition_relation :: "BDDReachability \<Rightarrow> py_error + BDDReachability" where
  "build_transition_relation e =
     (case bdd_manager e of
        None \<Rightarrow> Inl RuntimeError
      | Some V \<Rightarrow>
          (case transition_loop e V (sorted_places (petri_net e))
                  (transitions (petri_net e)) bdd_false of
             Inl err \<Rightarrow> Inl err
           | Inr T \<Rightarrow> Inr (e\<lparr>transition_relation := Some T\<rparr>)))"

text \<open>
  \<^verbatim>\<open>initialize_bdd\<close>. The manager is the list of declared names, in declaration order
  (\<^verbatim>\<open>declare\<close> of a name already declared changes nothing, so only the set of names
  matters). Every node is read against the manager as it is when initialisation ends.
\<close>

definition initialize_bdd :: "BDDReachability \<Rightarrow> py_error + BDDReachability" where
  "initialize_bdd e =
     (let ps = sorted_places (petri_net e);
          V = concat (map (\<lambda>p. [p, primed p]) ps);
          e1 = e\<lparr>bdd_manager := Some V,
                 place_var := (\<lambda>p. if p \<in> set ps then Some (bdd_var V p) else None),
                 next_var := (\<lambda>p. if p \<in> set ps then Some (bdd_var V (primed p)) else None)\<rparr>;
          e2 = build_transition_maps e1
      in case build_transition_relation e2 of
           Inl err \<Rightarrow> Inl err
         | Inr e3 \<Rightarrow> Inr (e3\<lparr>reachable_bdd := Some bdd_false\<rparr>))"

fun encode_loop :: "manager \<Rightarrow> (place \<rightharpoonup> bdd) \<Rightarrow> marking \<Rightarrow> place list \<Rightarrow> bdd \<Rightarrow> py_error + bdd" where
  "encode_loop V pv m [] node = Inr node"
| "encode_loop V pv m (p # ps) node =
     (case pv p of
        None \<Rightarrow> Inl KeyError
      | Some var \<Rightarrow>
          encode_loop V pv m ps
            (if has_token m p then bdd_and node var else bdd_and node (bdd_not V var)))"

definition encode_marking :: "BDDReachability \<Rightarrow> marking \<Rightarrow> py_error + bdd" where
  "encode_marking e m =
     (case bdd_manager e of
        None \<Rightarrow> Inl RuntimeError
      | Some V \<Rightarrow> encode_loop V (place_var e) m (sorted_places (petri_net e)) (bdd_true V))"

text \<open>
  \<^verbatim>\<open>post\<close>. The dict comprehension for \<^verbatim>\<open>rename_map\<close> reads \<^verbatim>\<open>self.place_var[p]\<close> for every
  place (a \<^verbatim>\<open>KeyError\<close> when one is missing); its keys are the primed names.
\<close>

definition post :: "BDDReachability \<Rightarrow> bdd \<Rightarrow> py_error + bdd" where
  "post e R =
     (case bdd_manager e of
        None \<Rightarrow> Inl RuntimeError
      | Some V \<Rightarrow>
          (case transition_relation e of
             None \<Rightarrow> Inr bdd_false
           | Some T \<Rightarrow>
               (let prod = bdd_and R T;
                    ps = sorted_places (petri_net e);
                    prod1 = (if ps \<noteq> [] then bdd_exist V ps prod else prod)
                in if \<exists>p \<in> set ps. place_var e p = None then Inl KeyError
                   else (let rename_map = (\<lambda>v. if v \<in> primed ` set ps
                                                 then place_var e (butlast v) else None)
                         in Inr (if ps \<noteq> [] then bdd_let V rename_map prod1 else prod1)))))"

definition the_manager :: "BDDReachability \<Rightarrow> manager" where
  "the_manager e = (case bdd_manager e of None \<Rightarrow> [] | Some V \<Rightarrow> V)"

function fixpoint_loop :: "BDDReachability \<Rightarrow> bdd \<Rightarrow> py_error + bdd" where
  "fixpoint_loop e R =
     (case post e R of
        Inl err \<Rightarrow> Inl err
      | Inr postR \<Rightarrow>
          (let Rnext = bdd_or R postR
           in if Rnext = R then Inr R else fixpoint_loop e Rnext))"
  by pat_completeness auto
termination
proof (relation "measure (\<lambda>(e, R). card (Pow (set (the_manager e)) - R))")
  show "wf (measure (\<lambda>(e, R). card (Pow (set (the_manager e)) - R)))" by simp
next
  fix e :: BDDReachability and R postR Rnext :: bdd
  assume p: "post e R = Inr postR" and n: "Rnext = bdd_or R postR" and ne: "Rnext \<noteq> R"
  from ne n have notsub: "\<not> postR \<subseteq> R" by (auto simp: bdd_or_def)
  have "postR \<subseteq> R \<or> postR \<subseteq> Pow (set (the_manager e))"
    using p
    by (auto simp: post_def the_manager_def bdd_false_def bdd_and_def bdd_let_def Let_def
             split: option.splits if_splits)
  with notsub have sub: "postR \<subseteq> Pow (set (the_manager e))" by blast
  from notsub obtain A where A: "A \<in> postR" "A \<notin> R" by blast
  have "Pow (set (the_manager e)) - Rnext \<subset> Pow (set (the_manager e)) - R"
    using A sub n by (auto simp: bdd_or_def)
  moreover have "finite (Pow (set (the_manager e)) - R)" by simp
  ultimately have "card (Pow (set (the_manager e)) - Rnext) < card (Pow (set (the_manager e)) - R)"
    by (rule psubset_card_mono [rotated])
  then show "((e, Rnext), (e, R)) \<in> measure (\<lambda>(e, R). card (Pow (set (the_manager e)) - R))"
    by simp
qed

definition compute_symbolic_reachability ::
  "BDDReachability \<Rightarrow> marking \<Rightarrow> py_error + (BDDReachability \<times> bdd)" where
  "compute_symbolic_reachability e initial =
     (case (if bdd_manager e = None then initialize_bdd e else Inr e) of
        Inl err \<Rightarrow> Inl err
      | Inr e1 \<Rightarrow>
          (case encode_marking e1 initial of
             Inl err \<Rightarrow> Inl err
           | Inr R0 \<Rightarrow>
               (case fixpoint_loop e1 R0 of
                  Inl err \<Rightarrow> Inl err
                | Inr R \<Rightarrow> Inr (e1\<lparr>reachable_bdd := Some R\<rparr>, R))))"

definition extract_markings_from_bdd :: "manager \<Rightarrow> bdd \<Rightarrow> place list \<Rightarrow> marking set" where
  "extract_markings_from_bdd V reachable ps =
     (if ps = [] then (if reachable \<noteq> bdd_false then {Marking Map.empty} else {})
      else (\<lambda>assign. Marking (\<lambda>p. if p \<in> set ps
                                   then Some (if (case assign p of None \<Rightarrow> False | Some b \<Rightarrow> b)
                                              then 1 else 0)
                                   else None)) ` pick_iter V reachable)"

definition extract_markings :: "BDDReachability \<Rightarrow> bdd option \<Rightarrow> py_error + marking set" where
  "extract_markings e reachable =
     (case bdd_manager e of
        None \<Rightarrow> Inl RuntimeError
      | Some V \<Rightarrow>
          (case (case reachable of None \<Rightarrow> reachable_bdd e | Some r \<Rightarrow> Some r) of
             None \<Rightarrow> Inr {}
           | Some r \<Rightarrow> Inr (extract_markings_from_bdd V r (sorted_places (petri_net e)))))"

definition is_reachable :: "BDDReachability \<Rightarrow> marking \<Rightarrow> py_error + (BDDReachability \<times> bool)" where
  "is_reachable e m =
     (case reachable_bdd e of
        None \<Rightarrow>
          (case initial_marking (petri_net e) of
             None \<Rightarrow> Inr (e, False)
           | Some init \<Rightarrow>
               (case compute_symbolic_reachability e init of
                  Inl err \<Rightarrow> Inl err
                | Inr (e1, R) \<Rightarrow>
                    (case encode_marking e1 m of
                       Inl err \<Rightarrow> Inl err
                     | Inr enc \<Rightarrow> Inr (e1, bdd_and enc R \<noteq> bdd_false))))
      | Some R \<Rightarrow>
          (case encode_marking e m of
             Inl err \<Rightarrow> Inl err
           | Inr enc \<Rightarrow>
               (case bdd_manager e of
                  None \<Rightarrow> Inl AttributeError
                | Some V \<Rightarrow> Inr (e, bdd_and enc R \<noteq> bdd_false))))"

subsection \<open>Notions used to state the properties of the engine\<close>

text \<open>
  The declared variables of an initialised engine; the input and output places of a
  transition with a missing entry read as empty; the constraint one place puts on a step;
  the set of assignments that the transition relation is shown to denote.
\<close>

definition net_vars :: "PetriNet \<Rightarrow> manager" where
  "net_vars net = concat (map (\<lambda>p. [p, primed p]) (sorted_places net))"

definition pre_of :: "PetriNet \<Rightarrow> transition \<Rightarrow> place list" where
  "pre_of net t = (case arcs net t of None \<Rightarrow> [] | Some a \<Rightarrow> arc_input a)"

definition post_of :: "PetriNet \<Rightarrow> transition \<Rightarrow> place list" where
  "post_of net t = (case arcs net t of None \<Rightarrow> [] | Some a \<Rightarrow> arc_output a)"

definition delta :: "place list \<Rightarrow> place list \<Rightarrow> place \<Rightarrow> assignment \<Rightarrow> bool" where
  "delta pre pst p A =
     (if p \<in> set pst then primed p \<in> A
      else if p \<in> set pre then primed p \<notin> A
      else (p \<in> A \<longleftrightarrow> primed p \<in> A))"

definition step_rel :: "PetriNet \<Rightarrow> bdd" where
  "step_rel net =
     {A \<in> Pow (set (net_vars net)).
        \<exists>t \<in> set (transitions net).
          set (pre_of net t) \<subseteq> A \<and>
          (\<forall>p \<in> set (places net). delta (pre_of net t) (post_of net t) p A)}"

definition prime_free :: "PetriNet \<Rightarrow> bool" where
  "prime_free net = (\<forall>p \<in> set (places net). primed p \<notin> set (places net))"

definition engine_ok :: "PetriNet \<Rightarrow> BDDReachability \<Rightarrow> bool" where
  "engine_ok net e \<longleftrightarrow>
     petri_net e = net \<and>
     bdd_manager e = Some (net_vars net) \<and>
     place_var e = (\<lambda>p. if p \<in> set (places net) then Some (bdd_var (net_vars net) p) else None) \<and>
     next_var e = (\<lambda>p. if p \<in> set (places net)
                        then Some (bdd_var (net_vars net) (primed p)) else None) \<and>
     transition_relation e = Some (step_rel net) \<and>
     (\<forall>t \<in> set (transitions net). set (pre_of net t) \<subseteq> set (places net))"

definition enc_set :: "PetriNet \<Rightarrow> marking \<Rightarrow> bdd" where
  "enc_set net m =
     {A \<in> Pow (set (net_vars net)). \<forall>p \<in> set (places net). (p \<in> A) = has_token m p}"

definition post_set :: "PetriNet \<Rightarrow> bdd \<Rightarrow> bdd" where
  "post_set net R =
     (if set (places net) = {} then R \<inter> step_rel net
      else bdd_let (net_vars net)
             (\<lambda>v. if v \<in> primed ` set (places net)
                  then Some (bdd_var (net_vars net) (butlast v)) else None)
             (bdd_exist (net_vars net) (sorted_places net) (R \<inter> step_rel net)))"

declare fixpoint_loop.simps [simp del]

definition pair_assignment :: "PetriNet \<Rightarrow> marking \<Rightarrow> marking \<Rightarrow> assignment" where
  "pair_assignment net m m' =
     {p \<in> set (places net). has_token m p} \<union> primed ` {p \<in> set (places net). has_token m' p}"

definition net_clash :: PetriNet where
  "net_clash = \<lparr>places = [''p'', primed ''p''], transitions = [''t''],
                arcs = [''t'' \<mapsto> \<lparr>arc_input = [primed ''p''], arc_output = []\<rparr>],
                initial_marking = Some [''p'' \<mapsto> False, primed ''p'' \<mapsto> True]\<rparr>"

text \<open>The engines the claims are about: freshly constructed, or initialised without error.\<close>

definition engine_for :: "PetriNet \<Rightarrow> BDDReachability \<Rightarrow> bool" where
  "engine_for net e0 \<longleftrightarrow>
     e0 = BDDReachability_init net \<or> initialize_bdd (BDDReachability_init net) = Inr e0"

section \<open>Explicit reachability (explicit\_reachability/reachability.py)\<close>

text \<open>
  \<^verbatim>\<open>compute_reachability\<close>: breadth-first search with a queue and the set of markings seen
  so far. The inner loop fires every enabled transition of the current marking; the outer
  loop runs until the queue is empty. The transition graph that the method also records
  is not part of its result and is left out.
\<close>

fun explore ::
  "PetriNet \<Rightarrow> marking \<Rightarrow> transition list \<Rightarrow> marking list \<Rightarrow> marking set \<Rightarrow>
   py_error + (marking list \<times> marking set)" where
  "explore net current [] queue reachable_markings = Inr (queue, reachable_markings)"
| "explore net current (t # enabled) queue reachable_markings =
     (case fire_transition net t current of
        Inl err \<Rightarrow> Inl err
      | Inr new_marking \<Rightarrow>
          if new_marking \<notin> reachable_markings
          then explore net current enabled (queue @ [new_marking])
                 (insert new_marking reachable_markings)
          else explore net current enabled queue reachable_markings)"

partial_function (option) bfs_loop ::
  "PetriNet \<Rightarrow> marking list \<Rightarrow> marking set \<Rightarrow> (py_error + marking set) option" where
  "bfs_loop net queue reachable_markings =
     (case queue of
        [] \<Rightarrow> Some (Inr reachable_markings)
      | current # rest \<Rightarrow>
          (case get_enabled_transitions net current of
             Inl err \<Rightarrow> Some (Inl err)
           | Inr enabled \<Rightarrow>
               (case explore net current enabled rest reachable_markings of
                  Inl err \<Rightarrow> Some (Inl err)
                | Inr qr \<Rightarrow> bfs_loop net (fst qr) (snd qr))))"

definition compute_reachability :: "PetriNet \<Rightarrow> marking \<Rightarrow> (py_error + marking set) option" where
  "compute_reachability net initial = bfs_loop net [initial] {initial}"

section \<open>The objective optimizer (optimization/optimizer.py)\<close>





text \<open>
  The state of the search: \<^verbatim>\<open>best_score\<close> (\<open>None\<close> is \<^verbatim>\<open>float('-inf')\<close>), \<^verbatim>\<open>best_mark\<close>, and
  the dict \<^verbatim>\<open>assignment\<close> that the recursive calls share and mutate.
\<close>

record dfs_state =
  best_score :: "int option"
  best_mark :: "(place \<rightharpoonup> int) option"
  assignment :: "place \<rightharpoonup> int"



text \<open>\<^verbatim>\<open>for i in range(n - 1, -1, -1): suffix_pos[i] = suffix_pos[i + 1] + pos_weights[i]\<close>\<close>

fun suffix_loop :: "int list \<Rightarrow> nat \<Rightarrow> int list \<Rightarrow> int list" where
  "suffix_loop pos_weights 0 suffix_pos = suffix_pos"
| "suffix_loop pos_weights (Suc i) suffix_pos =
     suffix_loop pos_weights i (suffix_pos[i := suffix_pos ! Suc i + pos_weights ! i])"











section \<open>Concrete nets\<close>

text \<open>A two-place net with one transition moving the token, used for concrete instances.\<close>

definition net_move :: PetriNet where
  "net_move = \<lparr>places = [''p1'', ''p2''], transitions = [''t1''],
               arcs = [''t1'' \<mapsto> \<lparr>arc_input = [''p1''], arc_output = [''p2'']\<rparr>],
               initial_marking = Some [''p1'' \<mapsto> True, ''p2'' \<mapsto> False]\<rparr>"

text \<open>One marked place emptied by a transition without output.\<close>

definition net_sink :: PetriNet where
  "net_sink = \<lparr>places = [''p''], transitions = [''t''],
               arcs = [''t'' \<mapsto> \<lparr>arc_input = [''p''], arc_output = []\<rparr>],
               initial_marking = Some [''p'' \<mapsto> True]\<rparr>"

section \<open>Properties of markings\<close>

lemma has_token_Marking:
  "has_token (Marking d) p = (case d p of None \<Rightarrow> False | Some i \<Rightarrow> i \<noteq> 0)"
  by (simp add: has_token_def Marking_def split: option.splits)

lemma fold_zip_map_lookup:
  "fold (\<lambda>(place, token) d. d(place \<mapsto> f token)) (zip ps (map g ps)) d0 =
     (\<lambda>p. if p \<in> set ps then Some (f (g p)) else d0 p)"
proof (induction ps arbitrary: d0)
  case Nil
  then show ?case by simp
next
  case (Cons q ps)
  have "fold (\<lambda>(place, token) d. d(place \<mapsto> f token)) (zip (q # ps) (map g (q # ps))) d0 =
        fold (\<lambda>(place, token) d. d(place \<mapsto> f token)) (zip ps (map g ps)) (d0(q \<mapsto> f (g q)))"
    by simp
  also have "\<dots> = (\<lambda>p. if p \<in> set ps then Some (f (g p)) else (d0(q \<mapsto> f (g q))) p)"
    by (rule Cons.IH)
  also have "\<dots> = (\<lambda>p. if p \<in> set (q # ps) then Some (f (g p)) else d0 p)"
    by (auto simp: fun_eq_iff)
  finally show ?case .
qed

lemma from_vector_to_vector_lookup:
  "from_vector (to_vector m order) order =
     Inr (\<lambda>p. if p \<in> set order then Some (has_token m p) else None)"
proof -
  have "fold (\<lambda>(place, token) d. d(place \<mapsto> (if token \<noteq> 0 then 1 else 0)))
          (zip order (map (\<lambda>place. if has_token m place then 1 else (0::int)) order)) Map.empty =
        (\<lambda>p. if p \<in> set order
              then Some (if (if has_token m p then 1 else (0::int)) \<noteq> 0 then 1 else (0::int))
              else None)"
    by (rule fold_zip_map_lookup)
  then show ?thesis
    by (simp add: from_vector_def to_vector_def Marking_def fun_eq_iff)
qed

text \<open>
  C6. \<^verbatim>\<open>M1 == M2\<close> compares the stored dicts, so a marking that stores a place as
  \<^verbatim>\<open>False\<close> differs from one that omits it, although \<^verbatim>\<open>has_token\<close> agrees on every place.
\<close>

theorem marking_eq_absent_counterexample:
  "\<not> (marking_eq (Marking [''p'' \<mapsto> 0]) (Marking Map.empty) \<longleftrightarrow>
      (\<forall>p. has_token (Marking [''p'' \<mapsto> 0]) p = has_token (Marking Map.empty) p))"
proof -
  have ne: "Marking [''p'' \<mapsto> 0] \<noteq> Marking Map.empty"
  proof
    assume "Marking [''p'' \<mapsto> 0] = Marking Map.empty"
    then have "Marking [''p'' \<mapsto> 0] ''p'' = Marking Map.empty ''p''" by simp
    then show False by (simp add: Marking_def)
  qed
  have agree: "\<forall>p. has_token (Marking [''p'' \<mapsto> 0]) p = has_token (Marking Map.empty) p"
    by (simp add: has_token_Marking)
  from ne agree show ?thesis by (simp add: marking_eq_def)
qed

text \<open>
  C6, as amended. Two markings that store the same set of places are equal exactly when
  they agree on every place; equal markings always agree on every place.
\<close>

theorem marking_eq_iff_agree:
  "(dom m1 = dom m2 \<longrightarrow>
      (marking_eq m1 m2 \<longleftrightarrow> (\<forall>p. has_token m1 p = has_token m2 p))) \<and>
   (marking_eq m1 m2 \<longrightarrow> (\<forall>p. has_token m1 p = has_token m2 p))"
proof -
  have "m1 = m2" if d: "dom m1 = dom m2" and a: "\<forall>p. has_token m1 p = has_token m2 p"
  proof
    fix p
    show "m1 p = m2 p"
    proof (cases "m1 p")
      case None
      with d have "m2 p = None" by (metis domIff)
      with None show ?thesis by simp
    next
      case (Some b)
      with d obtain c where c: "m2 p = Some c" by (metis domIff not_None_eq)
      from a have "has_token m1 p = has_token m2 p" by blast
      with Some c show ?thesis by (simp add: has_token_def)
    qed
  qed
  then show ?thesis by (auto simp: marking_eq_def)
qed

theorem marking_eq_iff_agree_witness:
  "marking_eq (Marking [''p'' \<mapsto> 1]) (Marking [''p'' \<mapsto> 5]) \<and>
   (\<forall>q. has_token (Marking [''p'' \<mapsto> 1]) q = has_token (Marking [''p'' \<mapsto> 5]) q)"
proof -
  have d: "dom (Marking [''p'' \<mapsto> 1]) = dom (Marking [''p'' \<mapsto> 5])"
    by (auto simp: Marking_def dom_def)
  have a: "\<forall>q. has_token (Marking [''p'' \<mapsto> 1]) q = has_token (Marking [''p'' \<mapsto> 5]) q"
    by (simp add: has_token_Marking)
  from marking_eq_iff_agree [of "Marking [''p'' \<mapsto> 1]" "Marking [''p'' \<mapsto> 5]"] d a
  show ?thesis by blast
qed

text \<open>
  C7. The round trip rebuilds a dict whose keys are exactly the places of \<open>order\<close>: a
  token on a place outside \<open>order\<close> is lost.
\<close>

theorem from_vector_to_vector_counterexample:
  "\<not> (\<exists>m. from_vector (to_vector (Marking [''p'' \<mapsto> 1]) []) [] = Inr m \<and>
           marking_eq m (Marking [''p'' \<mapsto> 1]))"
proof -
  have "Marking Map.empty \<noteq> Marking [''p'' \<mapsto> 1]"
  proof
    assume "Marking Map.empty = Marking [''p'' \<mapsto> 1]"
    then have "Marking Map.empty ''p'' = Marking [''p'' \<mapsto> 1] ''p''" by simp
    then show False by (simp add: Marking_def)
  qed
  then show ?thesis
    by (simp add: from_vector_def to_vector_def marking_eq_def)
qed

text \<open>
  C7, as amended. When the places stored in the marking are exactly the places listed in
  \<open>order\<close>, \<^verbatim>\<open>from_vector(M.to_vector(order), order)\<close> succeeds and equals \<open>M\<close>.
\<close>

theorem from_vector_to_vector:
  assumes "dom m = set order"
  shows "\<exists>m'. from_vector (to_vector m order) order = Inr m' \<and> marking_eq m' m"
proof -
  have "(\<lambda>p. if p \<in> set order then Some (has_token m p) else None) = m"
  proof
    fix p
    from assms have "p \<in> set order \<longleftrightarrow> m p \<noteq> None"
      by (metis domIff)
    then show "(if p \<in> set order then Some (has_token m p) else None) = m p"
      by (cases "m p") (auto simp: has_token_def)
  qed
  then show ?thesis
    by (simp add: from_vector_to_vector_lookup marking_eq_def)
qed

theorem from_vector_to_vector_witness:
  "\<exists>m'. from_vector (to_vector (Marking [''p'' \<mapsto> 1]) [''p'', ''p'']) [''p'', ''p''] = Inr m'
        \<and> marking_eq m' (Marking [''p'' \<mapsto> 1])"
proof -
  have "dom (Marking [''p'' \<mapsto> 1]) = set [''p'', ''p'']"
    by (auto simp: Marking_def dom_def)
  then show ?thesis by (rule from_vector_to_vector)
qed

section \<open>Properties of firing\<close>

lemma fold_set_token_h_length:
  "length (fold (\<lambda>place h'. set_token_h h' b place v) ps h) = length h"
  by (induction ps arbitrary: h) (simp_all add: set_token_h_def)

lemma fold_set_token_h_other:
  "c \<noteq> b \<Longrightarrow> fold (\<lambda>place h'. set_token_h h' b place v) ps h ! c = h ! c"
  by (induction ps arbitrary: h) (simp_all add: set_token_h_def)

lemma fold_set_token_h_same:
  "b < length h \<Longrightarrow>
   fold (\<lambda>place h'. set_token_h h' b place v) ps h ! b =
     fold (\<lambda>place new_marking. set_token new_marking place v) ps (h ! b)"
  by (induction ps arbitrary: h) (simp_all add: set_token_h_def)

text \<open>
  C8. For a transition of the net and a Marking object \<open>a\<close> of the store,
  \<^verbatim>\<open>fire_transition\<close> raises exactly when \<^verbatim>\<open>is_enabled\<close> does not return \<^verbatim>\<open>True\<close>; when it
  succeeds the result is a new object (an index beyond the old store) holding the
  argument's dict with every input place cleared and then every output place set; and in
  every case all objects of the old store, the argument among them, keep their dicts.
\<close>

theorem fire_transition_spec:
  assumes "transition \<in> set (transitions net)" and "a < length h"
  shows "((\<exists>e. snd (fire_transition_h net transition h a) = Inl e) \<longleftrightarrow>
            is_enabled net transition (h ! a) \<noteq> Inr True) \<and>
         (\<forall>b. snd (fire_transition_h net transition h a) = Inr b \<longrightarrow>
            b = length h \<and>
            length (fst (fire_transition_h net transition h a)) = Suc (length h) \<and>
            (\<exists>ai. arcs net transition = Some ai \<and>
               fst (fire_transition_h net transition h a) ! b =
                 fold (\<lambda>place m. m(place \<mapsto> True)) (arc_output ai)
                   (fold (\<lambda>place m. m(place \<mapsto> False)) (arc_input ai) (h ! a))) \<and>
            fire_transition net transition (h ! a) =
              Inr (fst (fire_transition_h net transition h a) ! b)) \<and>
         (\<forall>c < length h. fst (fire_transition_h net transition h a) ! c = h ! c)"
proof (cases "is_enabled net transition (h ! a)")
  case (Inl e)
  then show ?thesis
    using assms by (simp add: fire_transition_h_def)
next
  case (Inr en)
  show ?thesis
  proof (cases en)
    case False
    with Inr show ?thesis
      using assms by (simp add: fire_transition_h_def)
  next
    case True
    from Inr assms(1) obtain ai where ai: "arcs net transition = Some ai"
      by (auto simp: is_enabled_def split: option.splits)
    let ?h1 = "h @ [h ! a]"
    let ?h2 = "fold (\<lambda>place h'. set_token_h h' (length h) place False) (arc_input ai) ?h1"
    let ?h3 = "fold (\<lambda>place h'. set_token_h h' (length h) place True) (arc_output ai) ?h2"
    have res: "fire_transition_h net transition h a = (?h3, Inr (length h))"
      using assms(1) Inr True ai by (simp add: fire_transition_h_def copy_h_def)
    have len2: "length ?h2 = Suc (length h)"
      by (simp add: fold_set_token_h_length)
    have len3: "length ?h3 = Suc (length h)"
      by (simp add: fold_set_token_h_length)
    have new: "?h3 ! length h =
        fold (\<lambda>place m. m(place \<mapsto> True)) (arc_output ai)
          (fold (\<lambda>place m. m(place \<mapsto> False)) (arc_input ai) (h ! a))"
    proof -
      have s3: "?h3 ! length h =
          fold (\<lambda>place m. set_token m place True) (arc_output ai) (?h2 ! length h)"
        using len2 by (intro fold_set_token_h_same) simp
      have s2: "?h2 ! length h =
          fold (\<lambda>place m. set_token m place False) (arc_input ai) (?h1 ! length h)"
        by (intro fold_set_token_h_same) simp
      have s1: "?h1 ! length h = h ! a" by simp
      show ?thesis
        unfolding s3 s2 s1 set_token_def ..
    qed
    have old: "?h3 ! c = h ! c" if "c < length h" for c
      using that by (simp add: fold_set_token_h_other nth_append)
    have val: "fire_transition net transition (h ! a) = Inr (?h3 ! length h)"
      using assms(1) Inr True ai by (simp add: fire_transition_def new set_token_def)
    show ?thesis
      using Inr True ai len3 new old val by (simp add: res)
  qed
qed

theorem fire_transition_spec_witness:
  "''t1'' \<in> set (transitions net_move) \<and>
   snd (fire_transition_h net_move ''t1'' [[''p1'' \<mapsto> True, ''p2'' \<mapsto> False]] 0) = Inr 1 \<and>
   fst (fire_transition_h net_move ''t1'' [[''p1'' \<mapsto> True, ''p2'' \<mapsto> False]] 0) ! 0 =
     [''p1'' \<mapsto> True, ''p2'' \<mapsto> False] \<and>
   fire_transition net_move ''t1'' [''p1'' \<mapsto> True, ''p2'' \<mapsto> False] =
     Inr (fst (fire_transition_h net_move ''t1'' [[''p1'' \<mapsto> True, ''p2'' \<mapsto> False]] 0) ! 1)"
proof -
  have t: "''t1'' \<in> set (transitions net_move)"
    by (simp add: net_move_def)
  have a: "(0::nat) < length [[''p1'' \<mapsto> True, ''p2'' \<mapsto> False]]"
    by simp
  have en: "is_enabled net_move ''t1'' ([[''p1'' \<mapsto> True, ''p2'' \<mapsto> False]] ! 0) = Inr True"
    by (simp add: is_enabled_def net_move_def has_token_def)
  from fire_transition_spec [OF t a] en
  obtain b where b: "snd (fire_transition_h net_move ''t1'' [[''p1'' \<mapsto> True, ''p2'' \<mapsto> False]] 0) = Inr b"
    by (cases "snd (fire_transition_h net_move ''t1'' [[''p1'' \<mapsto> True, ''p2'' \<mapsto> False]] 0)") auto
  with fire_transition_spec [OF t a] t show ?thesis
    by auto
qed

section \<open>Properties of the symbolic engine\<close>

lemma set_sorted_places [simp]: "set (sorted_places net) = set (places net)"
  by (simp add: sorted_places_def)

lemma set_net_vars: "set (net_vars net) = set (places net) \<union> primed ` set (places net)"
  by (auto simp: net_vars_def)

lemma primed_inj [simp]: "primed p = primed q \<longleftrightarrow> p = q"
  by (simp add: primed_def)

lemma butlast_primed [simp]: "butlast (primed p) = p"
  by (simp add: primed_def)

lemma enabled_loop_eq:
  assumes "\<And>p. pv p = (if p \<in> P then Some (bdd_var V p) else None)"
  shows "enabled_loop pv pre acc =
           (if set pre \<subseteq> P then Inr {A \<in> acc. \<forall>p \<in> set pre. A \<subseteq> set V \<and> p \<in> A}
            else Inl KeyError)"
proof (induction pre arbitrary: acc)
  case Nil
  then show ?case by simp
next
  case (Cons q pre)
  show ?case
  proof (cases "q \<in> P")
    case False
    with assms [of q] have "pv q = None" by simp
    with False show ?thesis by simp
  next
    case True
    with assms [of q] have q: "pv q = Some (bdd_var V q)" by simp
    have eq: "{A \<in> bdd_and acc (bdd_var V q). \<forall>p \<in> set pre. A \<subseteq> set V \<and> p \<in> A} =
          {A \<in> acc. \<forall>p \<in> set (q # pre). A \<subseteq> set V \<and> p \<in> A}"
      by (auto simp: bdd_and_def bdd_var_def)
    have "enabled_loop pv (q # pre) acc = enabled_loop pv pre (bdd_and acc (bdd_var V q))"
      by (simp add: q)
    also have "\<dots> = (if set pre \<subseteq> P
                      then Inr {A \<in> bdd_and acc (bdd_var V q). \<forall>p \<in> set pre. A \<subseteq> set V \<and> p \<in> A}
                      else Inl KeyError)"
      by (rule Cons.IH)
    finally show ?thesis using True by (simp add: eq)
  qed
qed

lemma next_cons_loop_eq:
  assumes pv: "\<And>p. pv p = (if p \<in> P then Some (bdd_var V p) else None)"
      and nv: "\<And>p. nv p = (if p \<in> P then Some (bdd_var V (primed p)) else None)"
      and acc: "acc \<subseteq> Pow (set V)"
  shows "next_cons_loop V pv nv pre pst qs acc =
           (if set qs \<subseteq> P then Inr {A \<in> acc. \<forall>p \<in> set qs. delta pre pst p A}
            else Inl KeyError)"
  using acc
proof (induction qs arbitrary: acc)
  case Nil
  then show ?case by simp
next
  case (Cons q qs)
  show ?case
  proof (cases "q \<in> P")
    case False
    with pv [of q] have "pv q = None" by simp
    with False show ?thesis by simp
  next
    case True
    with pv [of q] nv [of q] have q: "pv q = Some (bdd_var V q)" "nv q = Some (bdd_var V (primed q))"
      by simp_all
    let ?acc' = "{A \<in> acc. delta pre pst q A}"
    have step: "(if q \<in> set pst then bdd_and acc (bdd_var V (primed q))
                 else if q \<in> set pre then bdd_and acc (bdd_not V (bdd_var V (primed q)))
                 else bdd_and acc (bdd_or (bdd_and (bdd_not V (bdd_var V q))
                                                    (bdd_not V (bdd_var V (primed q))))
                                          (bdd_and (bdd_var V q) (bdd_var V (primed q))))) = ?acc'"
      using Cons.prems
      by (auto simp: bdd_and_def bdd_or_def bdd_not_def bdd_var_def delta_def)
    have sub: "?acc' \<subseteq> Pow (set V)" using Cons.prems by blast
    have "next_cons_loop V pv nv pre pst (q # qs) acc = next_cons_loop V pv nv pre pst qs ?acc'"
      using step by (simp add: q)
    also have "\<dots> = (if set qs \<subseteq> P then Inr {A \<in> ?acc'. \<forall>p \<in> set qs. delta pre pst p A}
                      else Inl KeyError)"
      by (rule Cons.IH [OF sub])
    also have "\<dots> = (if set (q # qs) \<subseteq> P
                      then Inr {A \<in> acc. \<forall>p \<in> set (q # qs). delta pre pst p A}
                      else Inl KeyError)"
      using True by auto
    finally show ?thesis .
  qed
qed

lemma transition_loop_eq:
  assumes pv: "place_var e = (\<lambda>p. if p \<in> P then Some (bdd_var V p) else None)"
      and nv: "next_var e = (\<lambda>p. if p \<in> P then Some (bdd_var V (primed p)) else None)"
      and ps: "set ps = P"
      and ti: "\<And>t. (case trans_in e t of None \<Rightarrow> [] | Some l \<Rightarrow> l) = pre t"
      and to: "\<And>t. (case trans_out e t of None \<Rightarrow> [] | Some l \<Rightarrow> l) = pst t"
  shows "transition_loop e V ps ts T =
           (if \<forall>t \<in> set ts. set (pre t) \<subseteq> P
            then Inr (T \<union> {A \<in> Pow (set V). \<exists>t \<in> set ts.
                        set (pre t) \<subseteq> A \<and> (\<forall>p \<in> P. delta (pre t) (pst t) p A)})
            else Inl KeyError)"
proof (induction ts arbitrary: T)
  case Nil
  then show ?case by simp
next
  case (Cons t ts)
  have en: "enabled_loop (place_var e) (pre t) (bdd_true V) =
          (if set (pre t) \<subseteq> P then Inr {A \<in> bdd_true V. \<forall>p \<in> set (pre t). A \<subseteq> set V \<and> p \<in> A}
           else Inl KeyError)"
    by (rule enabled_loop_eq) (simp add: pv)
  have nc: "next_cons_loop V (place_var e) (next_var e) (pre t) (pst t) ps (bdd_true V) =
          (if set ps \<subseteq> P then Inr {A \<in> bdd_true V. \<forall>p \<in> set ps. delta (pre t) (pst t) p A}
           else Inl KeyError)"
    by (rule next_cons_loop_eq) (simp_all add: pv nv bdd_true_def)
  show ?case
  proof (cases "set (pre t) \<subseteq> P")
    case False
    have "transition_loop e V ps (t # ts) T = Inl KeyError"
      using False by (simp only: transition_loop.simps Let_def ti to en if_False sum.case)
    with False show ?thesis by simp
  next
    case True
    let ?T' = "T \<union> {A \<in> Pow (set V). set (pre t) \<subseteq> A \<and> (\<forall>p \<in> P. delta (pre t) (pst t) p A)}"
    have u: "bdd_or T (bdd_and {A \<in> bdd_true V. \<forall>p \<in> set (pre t). A \<subseteq> set V \<and> p \<in> A}
                               {A \<in> bdd_true V. \<forall>p \<in> set ps. delta (pre t) (pst t) p A}) = ?T'"
      by (auto simp: bdd_or_def bdd_and_def bdd_true_def ps)
    have "transition_loop e V ps (t # ts) T = transition_loop e V ps ts ?T'"
      using True
      by (simp only: transition_loop.simps Let_def ti to en nc ps subset_refl if_True sum.case u [unfolded ps])
    also have "\<dots> = (if \<forall>t \<in> set ts. set (pre t) \<subseteq> P
            then Inr (?T' \<union> {A \<in> Pow (set V). \<exists>t \<in> set ts.
                        set (pre t) \<subseteq> A \<and> (\<forall>p \<in> P. delta (pre t) (pst t) p A)})
            else Inl KeyError)"
      by (rule Cons.IH)
    also have "\<dots> = (if \<forall>t \<in> set (t # ts). set (pre t) \<subseteq> P
            then Inr (T \<union> {A \<in> Pow (set V). \<exists>t \<in> set (t # ts).
                        set (pre t) \<subseteq> A \<and> (\<forall>p \<in> P. delta (pre t) (pst t) p A)})
            else Inl KeyError)"
      using True by (auto intro!: arg_cong [where f = Inr])
    finally show ?thesis .
  qed
qed

lemma petri_net_init [simp]: "petri_net (BDDReachability_init net) = net"
  by (simp add: BDDReachability_init_def)

lemma fresh_trans_in:
  "t \<in> set (transitions net) \<Longrightarrow>
   (case trans_in (build_transition_maps
        ((BDDReachability_init net)\<lparr>bdd_manager := mg, place_var := pv, next_var := nv\<rparr>)) t of
      None \<Rightarrow> [] | Some l \<Rightarrow> l) = pre_of net t"
  by (simp add: build_transition_maps_def BDDReachability_init_def pre_of_def Let_def
           split: option.splits)

lemma fresh_trans_out:
  "t \<in> set (transitions net) \<Longrightarrow>
   (case trans_out (build_transition_maps
        ((BDDReachability_init net)\<lparr>bdd_manager := mg, place_var := pv, next_var := nv\<rparr>)) t of
      None \<Rightarrow> [] | Some l \<Rightarrow> l) = post_of net t"
  by (simp add: build_transition_maps_def BDDReachability_init_def post_of_def Let_def
           split: option.splits)

lemma initialize_bdd_fresh:
  "((\<forall>t \<in> set (transitions net). set (pre_of net t) \<subseteq> set (places net)) \<longrightarrow>
      (\<exists>e0. initialize_bdd (BDDReachability_init net) = Inr e0 \<and>
            engine_ok net e0 \<and> reachable_bdd e0 = Some bdd_false)) \<and>
   (\<not> (\<forall>t \<in> set (transitions net). set (pre_of net t) \<subseteq> set (places net)) \<longrightarrow>
      initialize_bdd (BDDReachability_init net) = Inl KeyError)"
proof -
  let ?V = "net_vars net"
  let ?P = "set (places net)"
  let ?pv = "\<lambda>p. if p \<in> ?P then Some (bdd_var ?V p) else None"
  let ?nv = "\<lambda>p. if p \<in> ?P then Some (bdd_var ?V (primed p)) else None"
  let ?e2 = "build_transition_maps
      ((BDDReachability_init net)\<lparr>bdd_manager := Some ?V, place_var := ?pv, next_var := ?nv\<rparr>)"
  let ?pre = "\<lambda>t. case trans_in ?e2 t of None \<Rightarrow> [] | Some l \<Rightarrow> l"
  let ?pst = "\<lambda>t. case trans_out ?e2 t of None \<Rightarrow> [] | Some l \<Rightarrow> l"
  let ?ok = "\<forall>t \<in> set (transitions net). set (pre_of net t) \<subseteq> ?P"
  have f2: "petri_net ?e2 = net" "bdd_manager ?e2 = Some ?V" "place_var ?e2 = ?pv"
      "next_var ?e2 = ?nv"
    by (simp_all add: build_transition_maps_def BDDReachability_init_def Let_def)
  have loop: "transition_loop ?e2 ?V (sorted_places net) (transitions net) bdd_false =
        (if \<forall>t \<in> set (transitions net). set (?pre t) \<subseteq> ?P
         then Inr (bdd_false \<union> {A \<in> Pow (set ?V). \<exists>t \<in> set (transitions net).
                     set (?pre t) \<subseteq> A \<and> (\<forall>p \<in> ?P. delta (?pre t) (?pst t) p A)})
         else Inl KeyError)"
    by (rule transition_loop_eq) (simp_all add: f2)
  have ok_eq: "(\<forall>t \<in> set (transitions net). set (?pre t) \<subseteq> ?P) = ?ok"
    by (simp add: fresh_trans_in)
  have T_eq: "bdd_false \<union> {A \<in> Pow (set ?V). \<exists>t \<in> set (transitions net).
                     set (?pre t) \<subseteq> A \<and> (\<forall>p \<in> ?P. delta (?pre t) (?pst t) p A)} = step_rel net"
    by (simp add: step_rel_def bdd_false_def fresh_trans_in fresh_trans_out)
  have btr: "build_transition_relation ?e2 =
        (if ?ok then Inr (?e2\<lparr>transition_relation := Some (step_rel net)\<rparr>) else Inl KeyError)"
    unfolding build_transition_relation_def f2 option.case loop ok_eq T_eq by simp
  let ?e0 = "?e2\<lparr>transition_relation := Some (step_rel net), reachable_bdd := Some bdd_false\<rparr>"
  have init: "initialize_bdd (BDDReachability_init net) = (if ?ok then Inr ?e0 else Inl KeyError)"
  proof -
    have "initialize_bdd (BDDReachability_init net) =
        (case build_transition_relation ?e2 of Inl err \<Rightarrow> Inl err
         | Inr e3 \<Rightarrow> Inr (e3\<lparr>reachable_bdd := Some bdd_false\<rparr>))"
      unfolding initialize_bdd_def Let_def net_vars_def petri_net_init set_sorted_places
      by (rule refl)
    then show ?thesis by (simp add: btr)
  qed
  show ?thesis
  proof (cases ?ok)
    case True
    have "engine_ok net ?e0"
      using True by (simp add: engine_ok_def f2)
    with init True show ?thesis by auto
  next
    case False
    with init show ?thesis by simp
  qed
qed

lemma encode_loop_eq:
  assumes pv: "\<And>p. pv p = (if p \<in> P then Some (bdd_var V p) else None)"
      and acc: "acc \<subseteq> Pow (set V)"
  shows "encode_loop V pv m qs acc =
           (if set qs \<subseteq> P then Inr {A \<in> acc. \<forall>p \<in> set qs. (p \<in> A) = has_token m p}
            else Inl KeyError)"
  using acc
proof (induction qs arbitrary: acc)
  case Nil
  then show ?case by simp
next
  case (Cons q qs)
  show ?case
  proof (cases "q \<in> P")
    case False
    with pv [of q] have "pv q = None" by simp
    with False show ?thesis by simp
  next
    case True
    with pv [of q] have q: "pv q = Some (bdd_var V q)" by simp
    let ?acc' = "{A \<in> acc. (q \<in> A) = has_token m q}"
    have step: "(if has_token m q then bdd_and acc (bdd_var V q)
                 else bdd_and acc (bdd_not V (bdd_var V q))) = ?acc'"
      using Cons.prems by (auto simp: bdd_and_def bdd_not_def bdd_var_def)
    have sub: "?acc' \<subseteq> Pow (set V)" using Cons.prems by blast
    have "encode_loop V pv m (q # qs) acc = encode_loop V pv m qs ?acc'"
      using step by (simp add: q)
    also have "\<dots> = (if set qs \<subseteq> P then Inr {A \<in> ?acc'. \<forall>p \<in> set qs. (p \<in> A) = has_token m p}
                      else Inl KeyError)"
      by (rule Cons.IH [OF sub])
    also have "\<dots> = (if set (q # qs) \<subseteq> P
                      then Inr {A \<in> acc. \<forall>p \<in> set (q # qs). (p \<in> A) = has_token m p}
                      else Inl KeyError)"
      using True by auto
    finally show ?thesis .
  qed
qed

lemma encode_marking_ok:
  assumes "engine_ok net e"
  shows "encode_marking e m = Inr (enc_set net m)"
proof -
  have "encode_loop (net_vars net) (place_var e) m (sorted_places net) (bdd_true (net_vars net)) =
        (if set (sorted_places net) \<subseteq> set (places net)
         then Inr {A \<in> bdd_true (net_vars net).
                     \<forall>p \<in> set (sorted_places net). (p \<in> A) = has_token m p}
         else Inl KeyError)"
    using assms by (intro encode_loop_eq) (simp_all add: engine_ok_def bdd_true_def)
  then show ?thesis
    using assms by (simp add: encode_marking_def engine_ok_def enc_set_def bdd_true_def)
qed

lemma bdd_exist_empty [simp]: "bdd_exist V qs {} = {}"
  by (simp add: bdd_exist_def)

lemma bdd_let_empty [simp]: "bdd_let V m {} = {}"
  by (simp add: bdd_let_def)

lemma sorted_places_Nil: "sorted_places net = [] \<longleftrightarrow> set (places net) = {}"
  by (metis set_sorted_places set_empty)

lemma post_ok:
  assumes "engine_ok net e"
  shows "post e R = Inr (post_set net R)"
proof -
  have rn: "(\<lambda>v. if v \<in> primed ` set (places net) then place_var e (butlast v) else None) =
            (\<lambda>v. if v \<in> primed ` set (places net)
                  then Some (bdd_var (net_vars net) (butlast v)) else None)"
    using assms by (auto simp: engine_ok_def fun_eq_iff)
  have none: "\<not> (\<exists>p \<in> set (places net). place_var e p = None)"
    using assms by (simp add: engine_ok_def)
  show ?thesis
    using assms none
    by (simp add: post_def engine_ok_def Let_def post_set_def bdd_and_def rn sorted_places_Nil)
qed

lemma post_set_subset: "post_set net R \<subseteq> R \<or> post_set net R \<subseteq> Pow (set (net_vars net))"
  by (auto simp: post_set_def bdd_let_def)

lemma fixpoint_loop_result:
  assumes "fixpoint_loop e R0 = Inr R"
  shows "R0 \<subseteq> R \<and> (\<exists>pr. post e R = Inr pr \<and> pr \<subseteq> R)"
  using assms
proof (induction e R0 rule: fixpoint_loop.induct)
  case (1 e R0)
  from "1.prems" obtain postR where p: "post e R0 = Inr postR"
    by (cases "post e R0") (simp_all add: fixpoint_loop.simps [of e R0])
  show ?case
  proof (cases "bdd_or R0 postR = R0")
    case True
    with p "1.prems" have "R = R0" by (simp add: fixpoint_loop.simps [of e R0])
    with p True show ?thesis by (auto simp: bdd_or_def)
  next
    case False
    with p "1.prems" have "fixpoint_loop e (bdd_or R0 postR) = Inr R"
      by (simp add: fixpoint_loop.simps [of e R0])
    from "1.IH" [OF p refl False this] show ?thesis by (auto simp: bdd_or_def)
  qed
qed

lemma fixpoint_loop_total:
  assumes "\<And>R. \<exists>pr. post e R = Inr pr"
  shows "\<exists>R. fixpoint_loop e R0 = Inr R"
  using assms
proof (induction e R0 rule: fixpoint_loop.induct)
  case (1 e R0)
  from "1.prems" obtain postR where p: "post e R0 = Inr postR" by blast
  show ?case
  proof (cases "bdd_or R0 postR = R0")
    case True
    with p show ?thesis by (simp add: fixpoint_loop.simps [of e R0])
  next
    case False
    from "1.IH" [OF p refl False "1.prems"] obtain R where
      "fixpoint_loop e (bdd_or R0 postR) = Inr R"
      by blast
    with p False show ?thesis by (simp add: fixpoint_loop.simps [of e R0])
  qed
qed

lemma fold_set_token_apply:
  "fold (\<lambda>place new_marking. set_token new_marking place v) ps m p =
     (if p \<in> set ps then Some v else m p)"
  by (induction ps arbitrary: m) (auto simp: set_token_def)

lemma fire_transition_Inr:
  assumes "fire_transition net t m = Inr m'"
  shows "t \<in> set (transitions net) \<and> is_enabled net t m = Inr True \<and>
         (\<forall>p. m' p = (if p \<in> set (post_of net t) then Some True
                      else if p \<in> set (pre_of net t) then Some False else m p))"
proof -
  from assms have t: "t \<in> set (transitions net)"
    by (auto simp: fire_transition_def split: if_splits)
  with assms have en: "is_enabled net t m = Inr True"
    by (auto simp: fire_transition_def split: if_splits sum.splits bool.splits)
  with t obtain a where a: "arcs net t = Some a"
    by (auto simp: is_enabled_def split: option.splits)
  from assms t en a have "m' = fold (\<lambda>place nm. set_token nm place True) (arc_output a)
                                 (fold (\<lambda>place nm. set_token nm place False) (arc_input a) m)"
    by (simp add: fire_transition_def)
  then have "\<forall>p. m' p = (if p \<in> set (post_of net t) then Some True
                      else if p \<in> set (pre_of net t) then Some False else m p)"
    by (simp add: fold_set_token_apply post_of_def pre_of_def a)
  with t en show ?thesis by blast
qed

lemma is_enabled_True:
  "is_enabled net t m = Inr True \<longleftrightarrow>
     t \<in> set (transitions net) \<and> arcs net t \<noteq> None \<and> (\<forall>p \<in> set (pre_of net t). has_token m p)"
  by (auto simp: is_enabled_def pre_of_def list_all_iff split: option.splits)

lemma fire_transition_enabled:
  assumes "is_enabled net t m = Inr True"
  shows "fire_transition net t m =
           Inr (\<lambda>p. if p \<in> set (post_of net t) then Some True
                    else if p \<in> set (pre_of net t) then Some False else m p)"
proof -
  from assms obtain a where t: "t \<in> set (transitions net)" and a: "arcs net t = Some a"
    by (auto simp: is_enabled_def split: option.splits if_splits)
  show ?thesis
    using assms t a
    by (simp add: fire_transition_def fold_set_token_apply post_of_def pre_of_def fun_eq_iff)
qed

lemma post_set_iff:
  assumes pf: "prime_free net" and ne: "set (places net) \<noteq> {}"
  shows "A \<in> post_set net R \<longleftrightarrow>
           A \<subseteq> set (net_vars net) \<and>
           (\<exists>B. B \<subseteq> set (places net) \<and>
                B \<union> primed ` (A \<inter> set (places net)) \<in> R \<inter> step_rel net)"
proof -
  let ?P = "set (places net)"
  let ?V = "net_vars net"
  let ?m = "\<lambda>v. if v \<in> primed ` ?P then Some (bdd_var ?V (butlast v)) else None"
  let ?sig = "\<lambda>A. {v \<in> set ?V. (case ?m v of None \<Rightarrow> v \<in> A | Some g \<Rightarrow> A \<in> g)}"
  have disj: "\<And>p. p \<in> ?P \<Longrightarrow> primed p \<notin> ?P"
    using pf by (simp add: prime_free_def)
  have sig: "?sig A - ?P = primed ` (A \<inter> ?P)" if "A \<subseteq> set ?V"
    using that disj by (auto simp: set_net_vars bdd_var_def)
  have mem: "A \<in> post_set net R \<longleftrightarrow>
        A \<in> Pow (set ?V) \<and> ?sig A \<in> bdd_exist ?V (sorted_places net) (R \<inter> step_rel net)"
    using ne by (simp only: post_set_def if_False bdd_let_def mem_Collect_eq)
  have ex: "?sig A \<in> bdd_exist ?V (sorted_places net) (R \<inter> step_rel net) \<longleftrightarrow>
        ?sig A \<in> Pow (set ?V) \<and> (\<exists>B \<in> Pow ?P. (?sig A - ?P) \<union> B \<in> R \<inter> step_rel net)"
    by (simp only: bdd_exist_def mem_Collect_eq set_sorted_places)
  have sigsub: "?sig A \<in> Pow (set ?V)" by blast
  show ?thesis
  proof (cases "A \<subseteq> set ?V")
    case False
    then show ?thesis by (simp add: mem)
  next
    case True
    have "(\<exists>B \<in> Pow ?P. (?sig A - ?P) \<union> B \<in> R \<inter> step_rel net) \<longleftrightarrow>
          (\<exists>B. B \<subseteq> ?P \<and> B \<union> primed ` (A \<inter> ?P) \<in> R \<inter> step_rel net)"
      unfolding sig [OF True] by (auto simp: Un_commute)
    with True sigsub show ?thesis
      unfolding mem ex by simp
  qed
qed

lemma step_rel_pair:
  assumes pf: "prime_free net"
      and pre: "\<forall>t \<in> set (transitions net). set (pre_of net t) \<subseteq> set (places net)"
      and B: "B \<subseteq> set (places net)" and C: "C \<subseteq> set (places net)"
  shows "B \<union> primed ` C \<in> step_rel net \<longleftrightarrow>
           (\<exists>t \<in> set (transitions net).
              set (pre_of net t) \<subseteq> B \<and>
              (\<forall>p \<in> set (places net).
                 (p \<in> C) = (if p \<in> set (post_of net t) then True
                            else if p \<in> set (pre_of net t) then False else p \<in> B)))"
proof -
  let ?P = "set (places net)"
  have disj: "\<And>p. p \<in> ?P \<Longrightarrow> primed p \<notin> ?P"
    using pf by (simp add: prime_free_def)
  have sub: "B \<union> primed ` C \<subseteq> set (net_vars net)"
    using B C by (auto simp: set_net_vars)
  have pr: "primed p \<in> B \<union> primed ` C \<longleftrightarrow> p \<in> C" if "p \<in> ?P" for p
    using that disj B by auto
  have cu: "p \<in> B \<union> primed ` C \<longleftrightarrow> p \<in> B" if "p \<in> ?P" for p
    using that disj C by auto
  have presub: "set (pre_of net t) \<subseteq> B \<union> primed ` C \<longleftrightarrow> set (pre_of net t) \<subseteq> B"
    if "t \<in> set (transitions net)" for t
    using that pre cu by (meson subset_iff)
  have dl: "delta (pre_of net t) (post_of net t) p (B \<union> primed ` C) \<longleftrightarrow>
        ((p \<in> C) = (if p \<in> set (post_of net t) then True
                    else if p \<in> set (pre_of net t) then False else p \<in> B))"
    if "p \<in> ?P" for p t
    unfolding delta_def pr [OF that] cu [OF that] by auto
  show ?thesis
    unfolding step_rel_def using sub presub dl by auto
qed

lemma validate_pre_post:
  assumes "validate_consistency net" and "t \<in> set (transitions net)"
  shows "arcs net t \<noteq> None \<and> set (pre_of net t) \<subseteq> set (places net) \<and>
         set (post_of net t) \<subseteq> set (places net)"
proof -
  from assms obtain a where a: "arcs net t = Some a"
    by (auto simp: validate_consistency_def)
  then have "a \<in> ran (arcs net)" by (auto simp: ran_def)
  with assms(1) have "set (arc_input a) \<subseteq> set (places net) \<and> set (arc_output a) \<subseteq> set (places net)"
    by (simp add: validate_consistency_def)
  with a show ?thesis by (simp add: pre_of_def post_of_def)
qed

lemma has_token_dom:
  "dom m = P \<Longrightarrow> m p = (if p \<in> P then Some (has_token m p) else None)"
  by (cases "m p") (auto simp: has_token_def dom_def)

text \<open>
  C2, as amended. For a net that passes \<^verbatim>\<open>validate_consistency\<close> and in which no place id is
  another place id followed by an apostrophe, and for markings \<open>m\<close>, \<open>m'\<close> that store exactly
  the places of the net: initialisation succeeds, and the assignment that sets the current
  variables as \<open>m\<close> says and the next variables as \<open>m'\<close> says satisfies the transition
  relation exactly when some transition is enabled at \<open>m\<close> and firing it gives \<open>m'\<close>.
\<close>

theorem transition_relation_sound:
  assumes vc: "validate_consistency net" and pf: "prime_free net"
      and dm: "dom m = set (places net)" and dm': "dom m' = set (places net)"
  shows "\<exists>e T. initialize_bdd (BDDReachability_init net) = Inr e \<and>
               transition_relation e = Some T \<and>
               (pair_assignment net m m' \<in> T \<longleftrightarrow>
                  (\<exists>t. is_enabled net t m = Inr True \<and> fire_transition net t m = Inr m'))"
proof -
  let ?P = "set (places net)"
  let ?B = "{p \<in> ?P. has_token m p}"
  let ?C = "{p \<in> ?P. has_token m' p}"
  have pre: "\<forall>t \<in> set (transitions net). set (pre_of net t) \<subseteq> ?P"
    using validate_pre_post [OF vc] by blast
  with initialize_bdd_fresh [of net] obtain e where
    e: "initialize_bdd (BDDReachability_init net) = Inr e" and ok: "engine_ok net e"
    by blast
  from ok have T: "transition_relation e = Some (step_rel net)"
    by (simp add: engine_ok_def)
  have sem: "?B \<union> primed ` ?C \<in> step_rel net \<longleftrightarrow>
           (\<exists>t \<in> set (transitions net).
              set (pre_of net t) \<subseteq> ?B \<and>
              (\<forall>p \<in> ?P.
                 (p \<in> ?C) = (if p \<in> set (post_of net t) then True
                            else if p \<in> set (pre_of net t) then False else p \<in> ?B)))"
    by (rule step_rel_pair [OF pf pre]) auto
  have "(\<exists>t \<in> set (transitions net).
              set (pre_of net t) \<subseteq> ?B \<and>
              (\<forall>p \<in> ?P.
                 (p \<in> ?C) = (if p \<in> set (post_of net t) then True
                            else if p \<in> set (pre_of net t) then False else p \<in> ?B))) \<longleftrightarrow>
        (\<exists>t. is_enabled net t m = Inr True \<and> fire_transition net t m = Inr m')"
  proof
    assume "\<exists>t \<in> set (transitions net).
              set (pre_of net t) \<subseteq> ?B \<and>
              (\<forall>p \<in> ?P.
                 (p \<in> ?C) = (if p \<in> set (post_of net t) then True
                            else if p \<in> set (pre_of net t) then False else p \<in> ?B))"
    then obtain t where t: "t \<in> set (transitions net)" and sub: "set (pre_of net t) \<subseteq> ?B"
      and c: "\<forall>p \<in> ?P. (p \<in> ?C) = (if p \<in> set (post_of net t) then True
                            else if p \<in> set (pre_of net t) then False else p \<in> ?B)"
      by blast
    from validate_pre_post [OF vc t] have a: "arcs net t \<noteq> None"
      and prs: "set (pre_of net t) \<subseteq> ?P" and pos: "set (post_of net t) \<subseteq> ?P" by simp_all
    from t a sub have en: "is_enabled net t m = Inr True"
      by (auto simp: is_enabled_True)
    have "(\<lambda>p. if p \<in> set (post_of net t) then Some True
              else if p \<in> set (pre_of net t) then Some False else m p) = m'"
    proof
      fix p
      show "(if p \<in> set (post_of net t) then Some True
              else if p \<in> set (pre_of net t) then Some False else m p) = m' p"
      proof (cases "p \<in> ?P")
        case True
        with c have "has_token m' p = (if p \<in> set (post_of net t) then True
                            else if p \<in> set (pre_of net t) then False else has_token m p)"
          by simp
        with True show ?thesis
          by (simp add: has_token_dom [OF dm] has_token_dom [OF dm'])
      next
        case False
        with prs pos show ?thesis
          by (auto simp: has_token_dom [OF dm] has_token_dom [OF dm'])
      qed
    qed
    with fire_transition_enabled [OF en] en
    show "\<exists>t. is_enabled net t m = Inr True \<and> fire_transition net t m = Inr m'" by auto
  next
    assume "\<exists>t. is_enabled net t m = Inr True \<and> fire_transition net t m = Inr m'"
    then obtain t where en: "is_enabled net t m = Inr True"
      and f: "fire_transition net t m = Inr m'" by blast
    from en have t: "t \<in> set (transitions net)"
      and tok: "\<forall>p \<in> set (pre_of net t). has_token m p"
      by (simp_all add: is_enabled_True)
    from validate_pre_post [OF vc t] have prs: "set (pre_of net t) \<subseteq> ?P" by simp
    from fire_transition_Inr [OF f]
    have m': "\<And>p. m' p = (if p \<in> set (post_of net t) then Some True
                      else if p \<in> set (pre_of net t) then Some False else m p)" by blast
    have "\<forall>p \<in> ?P. (p \<in> ?C) = (if p \<in> set (post_of net t) then True
                            else if p \<in> set (pre_of net t) then False else p \<in> ?B)"
      by (auto simp: has_token_def m')
    with t tok prs show "\<exists>t \<in> set (transitions net).
              set (pre_of net t) \<subseteq> ?B \<and>
              (\<forall>p \<in> ?P.
                 (p \<in> ?C) = (if p \<in> set (post_of net t) then True
                            else if p \<in> set (pre_of net t) then False else p \<in> ?B))"
      by blast
  qed
  with sem e T show ?thesis by (simp add: pair_assignment_def)
qed

lemma net_clash_pre:
  "\<forall>t \<in> set (transitions net_clash). set (pre_of net_clash t) \<subseteq> set (places net_clash)"
  by (simp add: net_clash_def pre_of_def)

lemma net_clash_step_rel:
  "A \<in> step_rel net_clash \<longleftrightarrow>
     A \<subseteq> {''p'', primed ''p'', primed (primed ''p'')} \<and> ''p'' \<in> A \<and> primed ''p'' \<in> A \<and>
     primed (primed ''p'') \<notin> A"
  by (auto simp: step_rel_def set_net_vars net_clash_def pre_of_def post_of_def delta_def primed_def)

text \<open>
  C2. The next-state variable of a place is named by appending an apostrophe. In the net
  with the places \<open>p\<close> and \<open>p'\<close> that name is shared: the transition is enabled at
  \<open>{p: 0, p': 1}\<close> and firing it gives \<open>{p: 0, p': 0}\<close>, but the encoded pair does not
  satisfy the transition relation.
\<close>

theorem transition_relation_clash_counterexample:
  "validate_consistency net_clash \<and>
   dom [''p'' \<mapsto> False, primed ''p'' \<mapsto> True] = set (places net_clash) \<and>
   dom [''p'' \<mapsto> False, primed ''p'' \<mapsto> False] = set (places net_clash) \<and>
   is_enabled net_clash ''t'' [''p'' \<mapsto> False, primed ''p'' \<mapsto> True] = Inr True \<and>
   fire_transition net_clash ''t'' [''p'' \<mapsto> False, primed ''p'' \<mapsto> True] =
     Inr [''p'' \<mapsto> False, primed ''p'' \<mapsto> False] \<and>
   (\<exists>e T. initialize_bdd (BDDReachability_init net_clash) = Inr e \<and>
          transition_relation e = Some T \<and>
          pair_assignment net_clash [''p'' \<mapsto> False, primed ''p'' \<mapsto> True]
            [''p'' \<mapsto> False, primed ''p'' \<mapsto> False] \<notin> T)"
proof -
  have vc: "validate_consistency net_clash"
    by (auto simp: validate_consistency_def net_clash_def ran_def split: if_splits)
  have d1: "dom [''p'' \<mapsto> False, primed ''p'' \<mapsto> True] = set (places net_clash)"
    by (auto simp: net_clash_def)
  have d2: "dom [''p'' \<mapsto> False, primed ''p'' \<mapsto> False] = set (places net_clash)"
    by (auto simp: net_clash_def)
  have en: "is_enabled net_clash ''t'' [''p'' \<mapsto> False, primed ''p'' \<mapsto> True] = Inr True"
    by (simp add: is_enabled_def net_clash_def has_token_def)
  have fi: "fire_transition net_clash ''t'' [''p'' \<mapsto> False, primed ''p'' \<mapsto> True] =
     Inr [''p'' \<mapsto> False, primed ''p'' \<mapsto> False]"
    unfolding fire_transition_enabled [OF en]
    by (auto simp: fun_eq_iff net_clash_def pre_of_def post_of_def)
  from initialize_bdd_fresh [of net_clash] net_clash_pre obtain e where
    e: "initialize_bdd (BDDReachability_init net_clash) = Inr e" and ok: "engine_ok net_clash e"
    by blast
  from ok have T: "transition_relation e = Some (step_rel net_clash)"
    by (simp add: engine_ok_def)
  have "''p'' \<notin> pair_assignment net_clash [''p'' \<mapsto> False, primed ''p'' \<mapsto> True]
            [''p'' \<mapsto> False, primed ''p'' \<mapsto> False]"
    by (auto simp: pair_assignment_def has_token_def net_clash_def primed_def)
  then have "pair_assignment net_clash [''p'' \<mapsto> False, primed ''p'' \<mapsto> True]
            [''p'' \<mapsto> False, primed ''p'' \<mapsto> False] \<notin> step_rel net_clash"
    by (simp add: net_clash_step_rel)
  with vc d1 d2 en fi e T show ?thesis by blast
qed

theorem transition_relation_sound_witness:
  "\<exists>e T. initialize_bdd (BDDReachability_init net_move) = Inr e \<and>
         transition_relation e = Some T \<and>
         pair_assignment net_move [''p1'' \<mapsto> True, ''p2'' \<mapsto> False]
            [''p1'' \<mapsto> False, ''p2'' \<mapsto> True] \<in> T"
proof -
  have vc: "validate_consistency net_move"
    by (auto simp: validate_consistency_def net_move_def ran_def split: if_splits)
  have pf: "prime_free net_move"
    by (simp add: prime_free_def net_move_def primed_def)
  have d1: "dom [''p1'' \<mapsto> True, ''p2'' \<mapsto> False] = set (places net_move)"
    by (auto simp: net_move_def)
  have d2: "dom [''p1'' \<mapsto> False, ''p2'' \<mapsto> True] = set (places net_move)"
    by (auto simp: net_move_def)
  have en: "is_enabled net_move ''t1'' [''p1'' \<mapsto> True, ''p2'' \<mapsto> False] = Inr True"
    by (simp add: is_enabled_def net_move_def has_token_def)
  have fi: "fire_transition net_move ''t1'' [''p1'' \<mapsto> True, ''p2'' \<mapsto> False] =
     Inr [''p1'' \<mapsto> False, ''p2'' \<mapsto> True]"
    unfolding fire_transition_enabled [OF en]
    by (auto simp: fun_eq_iff net_move_def pre_of_def post_of_def)
  from transition_relation_sound [OF vc pf d1 d2] en fi show ?thesis by blast
qed

lemma primed_neq [simp]: "primed p \<noteq> p" "p \<noteq> primed p"
  by (simp_all add: primed_def)

lemma fixpoint_loop_invariant:
  assumes "fixpoint_loop e R0 = Inr R" and "I R0"
      and "\<And>X pr. I X \<Longrightarrow> post e X = Inr pr \<Longrightarrow> I (bdd_or X pr)"
  shows "I R"
  using assms
proof (induction e R0 rule: fixpoint_loop.induct)
  case (1 e R0)
  from "1.prems"(1) obtain postR where p: "post e R0 = Inr postR"
    by (cases "post e R0") (simp_all add: fixpoint_loop.simps [of e R0])
  show ?case
  proof (cases "bdd_or R0 postR = R0")
    case True
    with p "1.prems"(1) have "R = R0" by (simp add: fixpoint_loop.simps [of e R0])
    with "1.prems"(2) show ?thesis by simp
  next
    case False
    with p "1.prems"(1) have f: "fixpoint_loop e (bdd_or R0 postR) = Inr R"
      by (simp add: fixpoint_loop.simps [of e R0])
    from "1.prems"(2) p have "I (bdd_or R0 postR)" by (rule "1.prems"(3))
    from "1.IH" [OF p refl False f this "1.prems"(3)] show ?thesis .
  qed
qed

lemma engine_ok_reachable_update [simp]:
  "engine_ok net (e\<lparr>reachable_bdd := r\<rparr>) = engine_ok net e"
  by (simp add: engine_ok_def)

lemma enc_set_subset: "enc_set net m \<subseteq> Pow (set (net_vars net))"
  by (auto simp: enc_set_def)

lemma step_rel_subset: "step_rel net \<subseteq> Pow (set (net_vars net))"
  by (auto simp: step_rel_def)

lemma post_set_Pow:
  "R \<subseteq> Pow (set (net_vars net)) \<Longrightarrow> post_set net R \<subseteq> Pow (set (net_vars net))"
  by (auto simp: post_set_def bdd_let_def)

lemma compute_ok:
  assumes ok: "engine_ok net e0"
  shows "\<exists>R. compute_symbolic_reachability e0 m0 = Inr (e0\<lparr>reachable_bdd := Some R\<rparr>, R) \<and>
             enc_set net m0 \<subseteq> R \<and> post_set net R \<subseteq> R \<and> R \<subseteq> Pow (set (net_vars net))"
proof -
  from ok have mg: "bdd_manager e0 = Some (net_vars net)" by (simp add: engine_ok_def)
  have "\<And>X. \<exists>pr. post e0 X = Inr pr" using post_ok [OF ok] by blast
  then obtain R where R: "fixpoint_loop e0 (enc_set net m0) = Inr R"
    using fixpoint_loop_total by blast
  from fixpoint_loop_result [OF R] post_ok [OF ok]
  have a: "enc_set net m0 \<subseteq> R" and b: "post_set net R \<subseteq> R" by auto
  have c: "R \<subseteq> Pow (set (net_vars net))"
  proof (rule fixpoint_loop_invariant [OF R])
    show "enc_set net m0 \<subseteq> Pow (set (net_vars net))" by (rule enc_set_subset)
  next
    fix X pr
    assume "X \<subseteq> Pow (set (net_vars net))" and "post e0 X = Inr pr"
    then show "bdd_or X pr \<subseteq> Pow (set (net_vars net))"
      using post_set_Pow [of X net] by (simp add: post_ok [OF ok] bdd_or_def)
  qed
  have "compute_symbolic_reachability e0 m0 = Inr (e0\<lparr>reachable_bdd := Some R\<rparr>, R)"
    using mg R by (simp add: compute_symbolic_reachability_def encode_marking_ok [OF ok])
  with a b c show ?thesis by blast
qed

lemma compute_fresh:
  "compute_symbolic_reachability (BDDReachability_init net) m0 =
     (case initialize_bdd (BDDReachability_init net) of
        Inl err \<Rightarrow> Inl err
      | Inr e0 \<Rightarrow> compute_symbolic_reachability e0 m0)"
proof (cases "initialize_bdd (BDDReachability_init net)")
  case (Inl err)
  then show ?thesis
    by (simp add: compute_symbolic_reachability_def BDDReachability_init_def)
next
  case (Inr e0)
  have "(\<forall>t \<in> set (transitions net). set (pre_of net t) \<subseteq> set (places net))"
    using initialize_bdd_fresh [of net] Inr by auto
  with initialize_bdd_fresh [of net] Inr have "engine_ok net e0" by auto
  then have "bdd_manager e0 = Some (net_vars net)" by (simp add: engine_ok_def)
  with Inr show ?thesis
    by (simp add: compute_symbolic_reachability_def BDDReachability_init_def)
qed

lemma compute_engine_for:
  assumes "engine_for net e0" and "compute_symbolic_reachability e0 m0 = Inr (e, R)"
  shows "engine_ok net e \<and> reachable_bdd e = Some R \<and>
         enc_set net m0 \<subseteq> R \<and> post_set net R \<subseteq> R \<and> R \<subseteq> Pow (set (net_vars net))"
proof -
  have "\<exists>e1. engine_ok net e1 \<and> compute_symbolic_reachability e1 m0 = Inr (e, R)"
  proof (cases "e0 = BDDReachability_init net")
    case True
    with assms(2) obtain e1 where i: "initialize_bdd (BDDReachability_init net) = Inr e1"
      and c: "compute_symbolic_reachability e1 m0 = Inr (e, R)"
      by (auto simp: compute_fresh split: sum.splits)
    from i initialize_bdd_fresh [of net] have "engine_ok net e1" by auto
    with c show ?thesis by blast
  next
    case False
    with assms(1) have i: "initialize_bdd (BDDReachability_init net) = Inr e0"
      by (simp add: engine_for_def)
    from i initialize_bdd_fresh [of net] have "engine_ok net e0" by auto
    with assms(2) show ?thesis by blast
  qed
  then obtain e1 where ok: "engine_ok net e1"
    and c: "compute_symbolic_reachability e1 m0 = Inr (e, R)" by blast
  from compute_ok [OF ok, of m0] c show ?thesis using ok by auto
qed

lemma compute_total:
  assumes "engine_for net e0"
      and "\<forall>t \<in> set (transitions net). set (pre_of net t) \<subseteq> set (places net)"
  shows "\<exists>e R. compute_symbolic_reachability e0 m0 = Inr (e, R)"
proof -
  from initialize_bdd_fresh [of net] assms(2) obtain e1 where
    i: "initialize_bdd (BDDReachability_init net) = Inr e1" and ok: "engine_ok net e1" by blast
  from compute_ok [OF ok, of m0] obtain e R where
    c: "compute_symbolic_reachability e1 m0 = Inr (e, R)" by blast
  show ?thesis
  proof (cases "e0 = BDDReachability_init net")
    case True
    with i c show ?thesis by (simp add: compute_fresh)
  next
    case False
    with assms(1) i have "e0 = e1" by (simp add: engine_for_def)
    with c show ?thesis by blast
  qed
qed

lemma enc_set_closure:
  assumes pf: "prime_free net"
      and pre: "\<forall>t \<in> set (transitions net). set (pre_of net t) \<subseteq> set (places net)"
      and en: "is_enabled net t m = Inr True"
      and fi: "fire_transition net t m = Inr m'"
      and sub: "enc_set net m \<subseteq> R"
  shows "enc_set net m' \<subseteq> post_set net R"
proof
  fix A
  assume A: "A \<in> enc_set net m'"
  let ?P = "set (places net)"
  let ?B = "{p \<in> ?P. has_token m p}"
  from en have t: "t \<in> set (transitions net)"
    and tok: "\<forall>p \<in> set (pre_of net t). has_token m p"
    by (simp_all add: is_enabled_True)
  from pre t have prs: "set (pre_of net t) \<subseteq> ?P" by blast
  from fire_transition_Inr [OF fi]
  have m': "\<And>p. m' p = (if p \<in> set (post_of net t) then Some True
                      else if p \<in> set (pre_of net t) then Some False else m p)" by blast
  have ht: "\<And>p. has_token m' p = (if p \<in> set (post_of net t) then True
                      else if p \<in> set (pre_of net t) then False else has_token m p)"
    by (simp add: has_token_def m')
  from A have AV: "A \<subseteq> set (net_vars net)" and AP: "\<forall>p \<in> ?P. (p \<in> A) = has_token m' p"
    by (simp_all add: enc_set_def)
  have disj: "\<And>p. p \<in> ?P \<Longrightarrow> primed p \<notin> ?P"
    using pf by (simp add: prime_free_def)
  have inR: "?B \<union> primed ` (A \<inter> ?P) \<in> enc_set net m"
    using disj by (auto simp: enc_set_def set_net_vars)
  have step: "?B \<union> primed ` (A \<inter> ?P) \<in> step_rel net"
    unfolding step_rel_pair [OF pf pre, of ?B "A \<inter> ?P", simplified]
    using t tok prs AP ht by (intro bexI [of _ t]) auto
  show "A \<in> post_set net R"
  proof (cases "?P = {}")
    case True
    then have "set (net_vars net) = {}" by (simp add: set_net_vars)
    with AV have "A = {}" by simp
    with inR step sub True show ?thesis by (auto simp: post_set_def)
  next
    case False
    show ?thesis
      unfolding post_set_iff [OF pf False]
      using AV inR step sub by (intro conjI exI [of _ ?B]) auto
  qed
qed



lemma engine_for_init: "engine_for net (BDDReachability_init net)"
  by (simp add: engine_for_def)



section \<open>Explicit search against symbolic extraction; membership queries\<close>

lemma map_upd_neq: "[p \<mapsto> True] \<noteq> [p \<mapsto> False]"
proof
  assume "[p \<mapsto> True] = [p \<mapsto> False]"
  then have "[p \<mapsto> True] p = [p \<mapsto> False] p" by simp
  then show False by simp
qed

lemma net_sink_bfs:
  "compute_reachability net_sink [''p'' \<mapsto> True] =
     Some (Inr {[''p'' \<mapsto> True], [''p'' \<mapsto> False]})"
proof -
  have en1: "is_enabled net_sink ''t'' [''p'' \<mapsto> True] = Inr True"
    by (simp add: is_enabled_def net_sink_def has_token_def)
  have en0: "is_enabled net_sink ''t'' [''p'' \<mapsto> False] = Inr False"
    by (simp add: is_enabled_def net_sink_def has_token_def)
  have g1: "get_enabled_transitions net_sink [''p'' \<mapsto> True] = Inr [''t'']"
    using en1 by (simp add: get_enabled_transitions_def) (simp add: net_sink_def)
  have g0: "get_enabled_transitions net_sink [''p'' \<mapsto> False] = Inr []"
    using en0 by (simp add: get_enabled_transitions_def) (simp add: net_sink_def)
  have fi: "fire_transition net_sink ''t'' [''p'' \<mapsto> True] = Inr [''p'' \<mapsto> False]"
    unfolding fire_transition_enabled [OF en1]
    by (auto simp: fun_eq_iff net_sink_def pre_of_def post_of_def)
  have ex: "explore net_sink [''p'' \<mapsto> True] [''t''] [] {[''p'' \<mapsto> True]} =
        Inr ([[''p'' \<mapsto> False]], {[''p'' \<mapsto> False], [''p'' \<mapsto> True]})"
    using map_upd_neq [of "''p''"] by (auto simp: fi)
  have "bfs_loop net_sink [[''p'' \<mapsto> False]] {[''p'' \<mapsto> False], [''p'' \<mapsto> True]} =
        Some (Inr {[''p'' \<mapsto> False], [''p'' \<mapsto> True]})"
    by (subst bfs_loop.simps, simp add: g0, subst bfs_loop.simps, simp)
  then have "bfs_loop net_sink [[''p'' \<mapsto> True]] {[''p'' \<mapsto> True]} =
        Some (Inr {[''p'' \<mapsto> False], [''p'' \<mapsto> True]})"
    by (subst bfs_loop.simps) (simp add: g1 ex del: explore.simps)
  then show ?thesis by (simp add: compute_reachability_def insert_commute)
qed

lemma bdd_support_true: "bdd_support V (Pow (set V)) = {}"
  by (auto simp: bdd_support_def)

lemma net_sink_R:
  assumes "compute_symbolic_reachability (BDDReachability_init net_sink) [''p'' \<mapsto> True] = Inr (e, R)"
  shows "R = Pow (set (net_vars net_sink))"
proof -
  have pf: "prime_free net_sink"
    by (simp add: prime_free_def net_sink_def)
  from compute_engine_for [OF engine_for_init assms]
  have ok: "engine_ok net_sink e" and i: "enc_set net_sink [''p'' \<mapsto> True] \<subseteq> R"
    and cl: "post_set net_sink R \<subseteq> R" and sub: "R \<subseteq> Pow (set (net_vars net_sink))"
    by simp_all
  from ok have pre: "\<forall>t \<in> set (transitions net_sink). set (pre_of net_sink t) \<subseteq> set (places net_sink)"
    by (simp add: engine_ok_def)
  have en1: "is_enabled net_sink ''t'' [''p'' \<mapsto> True] = Inr True"
    by (simp add: is_enabled_def net_sink_def has_token_def)
  have fi: "fire_transition net_sink ''t'' [''p'' \<mapsto> True] = Inr [''p'' \<mapsto> False]"
    unfolding fire_transition_enabled [OF en1]
    by (auto simp: fun_eq_iff net_sink_def pre_of_def post_of_def)
  from enc_set_closure [OF pf pre en1 fi i] cl
  have j: "enc_set net_sink [''p'' \<mapsto> False] \<subseteq> R" by blast
  have "Pow (set (net_vars net_sink)) \<subseteq>
        enc_set net_sink [''p'' \<mapsto> True] \<union> enc_set net_sink [''p'' \<mapsto> False]"
    by (auto simp: enc_set_def has_token_def net_sink_def)
  with i j sub show ?thesis by blast
qed

text \<open>
  C1. On the net with one marked place \<open>p\<close> and a transition that only consumes from it,
  the breadth-first search returns the two markings \<open>{p: 1}\<close> and \<open>{p: 0}\<close>. The symbolic
  set is the constant true, whose support is empty: \<^verbatim>\<open>pick_iter\<close> yields one assignment
  without \<open>p\<close>, read as \<open>p = 0\<close>, so \<^verbatim>\<open>extract_markings\<close> returns \<open>{p: 0}\<close> alone.
\<close>

theorem extract_markings_sink_differs:
  "\<exists>e R. compute_symbolic_reachability (BDDReachability_init net_sink) [''p'' \<mapsto> True] = Inr (e, R) \<and>
         R = bdd_true (net_vars net_sink) \<and>
         extract_markings e (Some R) = Inr {[''p'' \<mapsto> False]} \<and>
         extract_markings e None = Inr {[''p'' \<mapsto> False]} \<and>
         compute_reachability net_sink [''p'' \<mapsto> True] =
           Some (Inr {[''p'' \<mapsto> True], [''p'' \<mapsto> False]})"
proof -
  have pre: "\<forall>t \<in> set (transitions net_sink). set (pre_of net_sink t) \<subseteq> set (places net_sink)"
    by (simp add: net_sink_def pre_of_def)
  from compute_total [OF engine_for_init pre] obtain e R where
    c: "compute_symbolic_reachability (BDDReachability_init net_sink) [''p'' \<mapsto> True] = Inr (e, R)"
    by blast
  from net_sink_R [OF c] have R: "R = Pow (set (net_vars net_sink))" .
  from compute_engine_for [OF engine_for_init c]
  have ok: "engine_ok net_sink e" and rb: "reachable_bdd e = Some R" by simp_all
  have sp: "sorted_places net_sink = [''p'']"
    by (simp add: sorted_places_def net_sink_def)
  have pk: "pick_iter (net_vars net_sink) (Pow (set (net_vars net_sink))) = {\<lambda>v. None}"
    by (auto simp: pick_iter_def bdd_support_true)
  have mk: "Marking (\<lambda>p. if p = ''p'' then Some 0 else None) = [''p'' \<mapsto> False]"
    by (auto simp: Marking_def fun_eq_iff)
  have "extract_markings_from_bdd (net_vars net_sink) R [''p''] =
        (\<lambda>assign. Marking (\<lambda>p. if p \<in> set [''p'']
                                   then Some (if (case assign p of None \<Rightarrow> False | Some b \<Rightarrow> b)
                                              then 1 else 0)
                                   else None)) ` {\<lambda>v. None}"
    unfolding extract_markings_from_bdd_def R pk by simp
  also have "\<dots> = {[''p'' \<mapsto> False]}"
    using mk by simp
  finally have ex: "extract_markings_from_bdd (net_vars net_sink) R [''p''] = {[''p'' \<mapsto> False]}" .
  from ok have "bdd_manager e = Some (net_vars net_sink)" "petri_net e = net_sink"
    by (simp_all add: engine_ok_def)
  then have "extract_markings e (Some R) = Inr {[''p'' \<mapsto> False]}"
    "extract_markings e None = Inr {[''p'' \<mapsto> False]}"
    by (simp_all add: extract_markings_def rb sp ex)
  with c R net_sink_bfs show ?thesis by (simp add: bdd_true_def)
qed

lemma is_reachable_initialised:
  assumes ok: "engine_ok net e" and rb: "reachable_bdd e = Some R"
  shows "is_reachable e m = Inr (e, bdd_and (enc_set net m) R \<noteq> bdd_false)"
  using ok by (simp add: is_reachable_def rb encode_marking_ok [OF ok] engine_ok_def)

text \<open>
  C10, as amended. On an engine whose \<^verbatim>\<open>reachable_bdd\<close> is still \<open>None\<close>: without an initial
  marking in the net \<^verbatim>\<open>is_reachable\<close> returns \<^verbatim>\<open>False\<close> and leaves the engine as it is; with
  one it runs \<^verbatim>\<open>compute_symbolic_reachability\<close> from it and answers whether the encoding
  of the marking meets the computed set, and on a freshly constructed engine of a net
  whose input places all exist this raises no error, initialises the manager and stores
  the set. On an engine that was initialised but not computed \<^verbatim>\<open>reachable_bdd\<close> is the
  constant false, not \<open>None\<close>, and \<^verbatim>\<open>is_reachable\<close> returns \<^verbatim>\<open>False\<close> for every marking
  without computing anything.
\<close>

theorem is_reachable_before_compute:
  "(reachable_bdd e = None \<and> initial_marking (petri_net e) = None \<longrightarrow>
      is_reachable e m = Inr (e, False)) \<and>
   (reachable_bdd e = None \<and> initial_marking (petri_net e) = Some init \<longrightarrow>
      is_reachable e m =
        (case compute_symbolic_reachability e init of
           Inl err \<Rightarrow> Inl err
         | Inr (e1, R) \<Rightarrow>
             (case encode_marking e1 m of
                Inl err \<Rightarrow> Inl err
              | Inr enc \<Rightarrow> Inr (e1, bdd_and enc R \<noteq> bdd_false)))) \<and>
   (initial_marking net = Some init \<and>
    (\<forall>t \<in> set (transitions net). set (pre_of net t) \<subseteq> set (places net)) \<longrightarrow>
      (\<exists>e1 R enc. compute_symbolic_reachability (BDDReachability_init net) init = Inr (e1, R) \<and>
              bdd_manager e1 \<noteq> None \<and> reachable_bdd e1 = Some R \<and>
              encode_marking e1 m = Inr enc \<and>
              is_reachable (BDDReachability_init net) m =
                Inr (e1, bdd_and enc R \<noteq> bdd_false))) \<and>
   (initialize_bdd (BDDReachability_init net) = Inr e \<longrightarrow>
      is_reachable e m = Inr (e, False))"
proof (intro conjI impI)
  assume "reachable_bdd e = None \<and> initial_marking (petri_net e) = None"
  then show "is_reachable e m = Inr (e, False)"
    by (simp add: is_reachable_def)
next
  assume "reachable_bdd e = None \<and> initial_marking (petri_net e) = Some init"
  then show "is_reachable e m =
        (case compute_symbolic_reachability e init of
           Inl err \<Rightarrow> Inl err
         | Inr (e1, R) \<Rightarrow>
             (case encode_marking e1 m of
                Inl err \<Rightarrow> Inl err
              | Inr enc \<Rightarrow> Inr (e1, bdd_and enc R \<noteq> bdd_false)))"
    by (simp add: is_reachable_def)
next
  assume a: "initial_marking net = Some init \<and>
    (\<forall>t \<in> set (transitions net). set (pre_of net t) \<subseteq> set (places net))"
  then obtain e1 R where
    c: "compute_symbolic_reachability (BDDReachability_init net) init = Inr (e1, R)"
    using compute_total [OF engine_for_init, of net init] by blast
  from compute_engine_for [OF engine_for_init c]
  have ok: "engine_ok net e1" and rb: "reachable_bdd e1 = Some R" by simp_all
  have enc: "encode_marking e1 m = Inr (enc_set net m)"
    by (rule encode_marking_ok [OF ok])
  have mg: "bdd_manager e1 \<noteq> None" using ok by (simp add: engine_ok_def)
  have "is_reachable (BDDReachability_init net) m =
          Inr (e1, bdd_and (enc_set net m) R \<noteq> bdd_false)"
    using a c enc by (simp add: is_reachable_def) (simp add: BDDReachability_init_def)
  with c mg rb enc show "\<exists>e1 R enc.
      compute_symbolic_reachability (BDDReachability_init net) init = Inr (e1, R) \<and>
      bdd_manager e1 \<noteq> None \<and> reachable_bdd e1 = Some R \<and>
      encode_marking e1 m = Inr enc \<and>
      is_reachable (BDDReachability_init net) m = Inr (e1, bdd_and enc R \<noteq> bdd_false)"
    by blast
next
  assume i: "initialize_bdd (BDDReachability_init net) = Inr e"
  with initialize_bdd_fresh [of net] have ok: "engine_ok net e"
    and rb: "reachable_bdd e = Some bdd_false" by auto
  show "is_reachable e m = Inr (e, False)"
    by (simp add: is_reachable_initialised [OF ok rb] bdd_and_def bdd_false_def)
qed

lemma net_move_pre:
  "\<forall>t \<in> set (transitions net_move). set (pre_of net_move t) \<subseteq> set (places net_move)"
  by (simp add: net_move_def pre_of_def)

theorem is_reachable_before_compute_witness:
  "is_reachable (BDDReachability_init (net_move\<lparr>initial_marking := None\<rparr>))
      [''p1'' \<mapsto> True, ''p2'' \<mapsto> False] =
     Inr (BDDReachability_init (net_move\<lparr>initial_marking := None\<rparr>), False) \<and>
   (\<exists>e1 R enc.
      compute_symbolic_reachability (BDDReachability_init net_move)
        [''p1'' \<mapsto> True, ''p2'' \<mapsto> False] = Inr (e1, R) \<and>
      bdd_manager e1 \<noteq> None \<and> reachable_bdd e1 = Some R \<and>
      encode_marking e1 [''p1'' \<mapsto> False, ''p2'' \<mapsto> True] = Inr enc \<and>
      is_reachable (BDDReachability_init net_move) [''p1'' \<mapsto> False, ''p2'' \<mapsto> True] =
        Inr (e1, bdd_and enc R \<noteq> bdd_false)) \<and>
   (\<exists>e. initialize_bdd (BDDReachability_init net_move) = Inr e \<and>
        is_reachable e [''p1'' \<mapsto> False, ''p2'' \<mapsto> True] = Inr (e, False))"
proof -
  let ?n0 = "net_move\<lparr>initial_marking := None\<rparr>"
  have a: "reachable_bdd (BDDReachability_init ?n0) = None \<and>
           initial_marking (petri_net (BDDReachability_init ?n0)) = None"
    by (simp add: BDDReachability_init_def)
  have b: "initial_marking net_move = Some [''p1'' \<mapsto> True, ''p2'' \<mapsto> False] \<and>
           (\<forall>t \<in> set (transitions net_move). set (pre_of net_move t) \<subseteq> set (places net_move))"
    using net_move_pre by (simp add: net_move_def)
  from initialize_bdd_fresh [of net_move] net_move_pre obtain e where
    i: "initialize_bdd (BDDReachability_init net_move) = Inr e" by blast
  from is_reachable_before_compute [where e = "BDDReachability_init ?n0"
      and m = "[''p1'' \<mapsto> True, ''p2'' \<mapsto> False]"] a
  have 1: "is_reachable (BDDReachability_init ?n0) [''p1'' \<mapsto> True, ''p2'' \<mapsto> False] =
     Inr (BDDReachability_init ?n0, False)" by blast
  from is_reachable_before_compute [where init = "[''p1'' \<mapsto> True, ''p2'' \<mapsto> False]"
      and net = net_move and m = "[''p1'' \<mapsto> False, ''p2'' \<mapsto> True]"] b
  have 2: "\<exists>e1 R enc.
      compute_symbolic_reachability (BDDReachability_init net_move)
        [''p1'' \<mapsto> True, ''p2'' \<mapsto> False] = Inr (e1, R) \<and>
      bdd_manager e1 \<noteq> None \<and> reachable_bdd e1 = Some R \<and>
      encode_marking e1 [''p1'' \<mapsto> False, ''p2'' \<mapsto> True] = Inr enc \<and>
      is_reachable (BDDReachability_init net_move) [''p1'' \<mapsto> False, ''p2'' \<mapsto> True] =
        Inr (e1, bdd_and enc R \<noteq> bdd_false)" by blast
  from is_reachable_before_compute [where e = e and net = net_move
      and m = "[''p1'' \<mapsto> False, ''p2'' \<mapsto> True]"] i
  have 3: "is_reachable e [''p1'' \<mapsto> False, ''p2'' \<mapsto> True] = Inr (e, False)" by blast
  from 1 2 3 i show ?thesis by blast
qed

text \<open>
  C10. After \<^verbatim>\<open>initialize_bdd()\<close> and before any \<^verbatim>\<open>compute_symbolic_reachability\<close>, on a net
  that has an initial marking, \<^verbatim>\<open>is_reachable\<close> of that very marking returns \<^verbatim>\<open>False\<close> and
  leaves the engine unchanged: nothing is computed. On the freshly constructed engine the
  same call computes the set and returns \<^verbatim>\<open>True\<close>.
\<close>

theorem is_reachable_initialised_counterexample:
  "\<exists>e. initialize_bdd (BDDReachability_init net_move) = Inr e \<and>
       initial_marking (petri_net e) = Some [''p1'' \<mapsto> True, ''p2'' \<mapsto> False] \<and>
       is_reachable e [''p1'' \<mapsto> True, ''p2'' \<mapsto> False] = Inr (e, False) \<and>
       (\<exists>e1. is_reachable (BDDReachability_init net_move) [''p1'' \<mapsto> True, ''p2'' \<mapsto> False] =
               Inr (e1, True))"
proof -
  let ?m0 = "[''p1'' \<mapsto> True, ''p2'' \<mapsto> False]"
  from initialize_bdd_fresh [of net_move] net_move_pre obtain e where
    i: "initialize_bdd (BDDReachability_init net_move) = Inr e" and ok: "engine_ok net_move e"
    and rb: "reachable_bdd e = Some bdd_false" by blast
  from ok have im: "initial_marking (petri_net e) = Some ?m0"
    by (simp add: engine_ok_def) (simp add: net_move_def)
  have f: "is_reachable e ?m0 = Inr (e, False)"
    by (simp add: is_reachable_initialised [OF ok rb] bdd_and_def bdd_false_def)
  from compute_total [OF engine_for_init net_move_pre] obtain e1 R where
    c: "compute_symbolic_reachability (BDDReachability_init net_move) ?m0 = Inr (e1, R)" by blast
  from compute_engine_for [OF engine_for_init c]
  have ok1: "engine_ok net_move e1" and sub: "enc_set net_move ?m0 \<subseteq> R" by simp_all
  have "{''p1''} \<in> enc_set net_move ?m0"
    by (auto simp: enc_set_def set_net_vars net_move_def has_token_def)
  with sub have ne: "bdd_and (enc_set net_move ?m0) R \<noteq> bdd_false"
    by (auto simp: bdd_and_def bdd_false_def)
  have rb0: "reachable_bdd (BDDReachability_init net_move) = None"
    by (simp add: BDDReachability_init_def)
  have im0: "initial_marking net_move = Some ?m0"
    by (simp add: net_move_def)
  have "is_reachable (BDDReachability_init net_move) ?m0 = Inr (e1, True)"
    using ne by (simp add: is_reachable_def rb0 im0 c encode_marking_ok [OF ok1])
  with i im f show ?thesis by blast
qed

section \<open>Properties of the optimizer\<close>


lemma length_suffix_loop [simp]: "length (suffix_loop pw i sp) = length sp"
  by (induction i arbitrary: sp) simp_all




end
